theory Spec2Isabelle
  imports Complex_Main "HOL-Library.Finite_Map" "HOL-Library.Multiset"
    "HOL-Library.Char_ord" "HOL-Library.List_Lexorder"
begin

section \<open>The request registry (internal/models/queue.go)\<close>

text \<open>
  The registry is the Go type \<^verbatim>\<open>BookQueue\<close>: a binary heap of queue items and five
  maps keyed by the book id. Every method takes the write lock for its whole body, so a
  method is one atomic step on the state and the model passes the state explicitly.
  Readings of the clock (\<^verbatim>\<open>time.Now()\<close>) are arguments of the operation that takes them.
\<close>

datatype QueueStatus =
  StatusQueued | StatusDownloading | StatusAvailable | StatusError | StatusDone | StatusCancelled

text \<open>
  \<^verbatim>\<open>BookInfo\<close>: the fields the registry and the downloader read or write. The remaining
  fields (Preview, Author, Publisher, Year, Language, Info) are carried along untouched
  by all the code modelled here. Go's \<^verbatim>\<open>*string\<close> is an option; \<^verbatim>\<open>float64\<close> progress
  values are modelled by the reals they denote.
\<close>

record BookInfo =
  ID :: string
  Title :: string
  Format :: "string option"
  Size :: "string option"
  DownloadURLs :: "string list"
  DownloadPath :: "string option"
  Priority :: int
  Progress :: "real option"

text \<open>
  \<^verbatim>\<open>QueueItem\<close>. The field \<^verbatim>\<open>Index\<close> is written by Swap, Push and Pop and read nowhere;
  it is left out. Times are integers (nanoseconds of the clock), \<^verbatim>\<open>Before\<close> is \<open><\<close>.
\<close>

record QueueItem =
  BookID :: string
  Priority :: int
  AddedTime :: int

type_synonym PriorityQueue = "QueueItem list"

subsection \<open>PriorityQueue: the methods of heap.Interface\<close>

definition Less :: "QueueItem \<Rightarrow> QueueItem \<Rightarrow> bool" where
  "Less a b =
     (if QueueItem.Priority a \<noteq> QueueItem.Priority b
      then QueueItem.Priority a < QueueItem.Priority b
      else AddedTime a < AddedTime b)"

definition Swap :: "PriorityQueue \<Rightarrow> nat \<Rightarrow> nat \<Rightarrow> PriorityQueue" where
  "Swap pq i j = pq[i := pq ! j, j := pq ! i]"

subsection \<open>container/heap of the Go library, over PriorityQueue\<close>

text \<open>
  \<^verbatim>\<open>up\<close> and \<^verbatim>\<open>down\<close> are the two loops of container/heap. Indices are naturals:
  Go computes the parent as \<^verbatim>\<open>(j - 1) / 2\<close> with division truncating towards zero, which
  gives 0 at \<open>j = 0\<close>, as truncating subtraction on \<open>nat\<close> does. \<^verbatim>\<open>down\<close> returns the
  heap together with the index where the element came to rest; Go returns \<^verbatim>\<open>i > i0\<close>.
\<close>

function up :: "PriorityQueue \<Rightarrow> nat \<Rightarrow> PriorityQueue" where
  "up h j =
     (let i = (j - 1) div 2 in
      if i = j \<or> \<not> Less (h ! j) (h ! i) then h else up (Swap h i j) i)"
  by pat_completeness auto
termination
  by (relation "measure (\<lambda>(h, j). j)") auto

function down :: "PriorityQueue \<Rightarrow> nat \<Rightarrow> nat \<Rightarrow> PriorityQueue \<times> nat" where
  "down h i n =
     (let j1 = 2 * i + 1 in
      if j1 \<ge> n then (h, i)
      else
        let j = (if j1 + 1 < n \<and> Less (h ! (j1 + 1)) (h ! j1) then j1 + 1 else j1) in
        if \<not> Less (h ! j) (h ! i) then (h, i) else down (Swap h i j) j n)"
  by pat_completeness auto
termination
  by (relation "measure (\<lambda>(h, i, n). n - i)") (auto split: if_splits)

declare up.simps [simp del]
declare down.simps [simp del]

definition heap_Init :: "PriorityQueue \<Rightarrow> PriorityQueue" where
  "heap_Init h = fold (\<lambda>i h'. fst (down h' i (length h))) (rev [0..<length h div 2]) h"

definition heap_Push :: "PriorityQueue \<Rightarrow> QueueItem \<Rightarrow> PriorityQueue" where
  "heap_Push h x = up (h @ [x]) (length h)"

text \<open>\<^verbatim>\<open>heap.Pop\<close> is only called on a non-empty heap (Go panics on an empty one).\<close>

definition heap_Pop :: "PriorityQueue \<Rightarrow> QueueItem \<times> PriorityQueue" where
  "heap_Pop h =
     (let n = length h - 1;
          h' = fst (down (Swap h 0 n) 0 n)
      in (last h', butlast h'))"

definition heap_Fix :: "PriorityQueue \<Rightarrow> nat \<Rightarrow> PriorityQueue" where
  "heap_Fix h i =
     (let (h', i') = down h i (length h) in
      if \<not> i' > i then up h' i else h')"

subsection \<open>The two loops unfolded, lengths and contents\<close>

text \<open>
  \<open>le a b\<close> says that \<open>b\<close> does not come before \<open>a\<close>; \<open>minChild\<close> names the child
  that \<^verbatim>\<open>down\<close> compares with the element it is sinking.
\<close>

definition le :: "QueueItem \<Rightarrow> QueueItem \<Rightarrow> bool" where
  "le a b = (\<not> Less b a)"

lemma le_item_refl: "le a a"
  by (simp add: le_def Less_def)

lemma le_item_trans: "le a b \<Longrightarrow> le b c \<Longrightarrow> le a c"
  by (auto simp: le_def Less_def split: if_splits)

lemma Less_le: "Less a b \<Longrightarrow> le a b"
  by (auto simp: le_def Less_def split: if_splits)

lemma parent_child: "0 < (c::nat) \<Longrightarrow> ((c - 1) div 2 = i) = (c = 2 * i + 1 \<or> c = 2 * i + 2)"
  by arith

lemma parent_less: "0 < (c::nat) \<Longrightarrow> (c - 1) div 2 < c"
  by arith

definition minChild :: "PriorityQueue \<Rightarrow> nat \<Rightarrow> nat \<Rightarrow> nat" where
  "minChild h i n =
     (if 2 * i + 2 < n \<and> Less (h ! (2 * i + 2)) (h ! (2 * i + 1)) then 2 * i + 2 else 2 * i + 1)"

lemma down_stop1: "n \<le> 2 * i + 1 \<Longrightarrow> down h i n = (h, i)"
  by (subst down.simps) simp

lemma down_stop2:
  "2 * i + 1 < n \<Longrightarrow> \<not> Less (h ! minChild h i n) (h ! i) \<Longrightarrow> down h i n = (h, i)"
  by (subst down.simps) (auto simp add: minChild_def Let_def split: if_splits)

lemma down_step:
  "2 * i + 1 < n \<Longrightarrow> Less (h ! minChild h i n) (h ! i) \<Longrightarrow>
   down h i n = down (Swap h i (minChild h i n)) (minChild h i n) n"
  by (subst down.simps) (auto simp add: minChild_def Let_def split: if_splits)

lemma down_induct [case_names step]:
  assumes "\<And>h i n.
     (2 * i + 1 < n \<Longrightarrow> Less (h ! minChild h i n) (h ! i) \<Longrightarrow>
        P (Swap h i (minChild h i n)) (minChild h i n) n) \<Longrightarrow> P h i n"
  shows "P h i n"
proof (induction h i n rule: down.induct)
  case (1 h i n)
  show ?case
  proof (rule assms)
    assume a: "2 * i + 1 < n" "Less (h ! minChild h i n) (h ! i)"
    have eq: "minChild h i n =
        (if 2 * i + 1 + 1 < n \<and> Less (h ! (2 * i + 1 + 1)) (h ! (2 * i + 1))
         then 2 * i + 1 + 1 else 2 * i + 1)"
      by (simp add: minChild_def)
    show "P (Swap h i (minChild h i n)) (minChild h i n) n"
      using 1 [OF refl _ eq] a by simp
  qed
qed

lemma down_cases [case_names stop1 stop2 step]:
  assumes "n \<le> 2 * i + 1 \<Longrightarrow> down h i n = (h, i) \<Longrightarrow> Q"
    and "2 * i + 1 < n \<Longrightarrow> \<not> Less (h ! minChild h i n) (h ! i) \<Longrightarrow> down h i n = (h, i) \<Longrightarrow> Q"
    and "2 * i + 1 < n \<Longrightarrow> Less (h ! minChild h i n) (h ! i) \<Longrightarrow>
         down h i n = down (Swap h i (minChild h i n)) (minChild h i n) n \<Longrightarrow> Q"
  shows Q
  using assms down_stop1 down_stop2 down_step by (metis not_le_imp_less)

lemma minChild_range: "2 * i + 1 < n \<Longrightarrow> minChild h i n < n \<and> i < minChild h i n"
  by (simp add: minChild_def)

lemma minChild_cases: "minChild h i n = 2 * i + 1 \<or> minChild h i n = 2 * i + 2"
  by (simp add: minChild_def)

lemma up_stop: "j = 0 \<or> \<not> Less (h ! j) (h ! ((j - 1) div 2)) \<Longrightarrow> up h j = h"
  by (subst up.simps) (auto simp: Let_def)

lemma up_step:
  "0 < j \<Longrightarrow> Less (h ! j) (h ! ((j - 1) div 2)) \<Longrightarrow>
   up h j = up (Swap h ((j - 1) div 2) j) ((j - 1) div 2)"
  by (subst up.simps) (auto simp: Let_def dest: parent_less)

lemma up_induct [case_names step]:
  assumes "\<And>h j.
     (0 < j \<Longrightarrow> Less (h ! j) (h ! ((j - 1) div 2)) \<Longrightarrow>
        P (Swap h ((j - 1) div 2) j) ((j - 1) div 2)) \<Longrightarrow> P h j"
  shows "P h j"
proof (induction h j rule: up.induct)
  case (1 h j)
  show ?case
  proof (rule assms)
    assume a: "0 < j" "Less (h ! j) (h ! ((j - 1) div 2))"
    have "(j - 1) div 2 \<noteq> j" using a(1) parent_less [of j] by simp
    then show "P (Swap h ((j - 1) div 2) j) ((j - 1) div 2)"
      using a by (intro 1 [OF refl]) simp
  qed
qed

definition hp :: "PriorityQueue \<Rightarrow> nat \<Rightarrow> nat \<Rightarrow> bool" where
  "hp h n k = (\<forall>c<n. 0 < c \<and> k \<le> (c - 1) div 2 \<longrightarrow> le (h ! ((c - 1) div 2)) (h ! c))"

definition hp_except :: "PriorityQueue \<Rightarrow> nat \<Rightarrow> nat \<Rightarrow> nat \<Rightarrow> bool" where
  "hp_except h n k i =
     (\<forall>c<n. 0 < c \<and> k \<le> (c - 1) div 2 \<and> (c - 1) div 2 \<noteq> i \<longrightarrow> le (h ! ((c - 1) div 2)) (h ! c))"

definition grand :: "PriorityQueue \<Rightarrow> nat \<Rightarrow> nat \<Rightarrow> nat \<Rightarrow> bool" where
  "grand h n k i =
     (0 < i \<and> k \<le> (i - 1) div 2 \<longrightarrow>
        (\<forall>c<n. 0 < c \<and> (c - 1) div 2 = i \<longrightarrow> le (h ! ((i - 1) div 2)) (h ! c)))"

definition heap_ok :: "PriorityQueue \<Rightarrow> bool" where
  "heap_ok h = (\<forall>c<length h. 0 < c \<longrightarrow> \<not> Less (h ! c) (h ! ((c - 1) div 2)))"

lemma heap_ok_hp: "heap_ok h = hp h (length h) 0"
  by (simp add: heap_ok_def hp_def le_def)

lemma length_Swap [simp]: "length (Swap h i j) = length h"
  by (simp add: Swap_def)

lemma mset_Swap: "i < length h \<Longrightarrow> j < length h \<Longrightarrow> mset (Swap h i j) = mset h"
  by (simp add: Swap_def mset_swap)

lemma nth_Swap:
  "i < length h \<Longrightarrow> j < length h \<Longrightarrow>
   Swap h i j ! m = (if m = j then h ! i else if m = i then h ! j else h ! m)"
  by (auto simp: Swap_def nth_list_update)

lemma length_down [simp]: "length (fst (down h i n)) = length h"
proof (induction h i n rule: down_induct)
  case (step h i n)
  show ?case
    by (rule down_cases [where h = h and i = i and n = n]) (use step in auto)
qed

lemma mset_down: "n \<le> length h \<Longrightarrow> mset (fst (down h i n)) = mset h"
proof (induction h i n rule: down_induct)
  case (step h i n)
  show ?case
  proof (rule down_cases [where h = h and i = i and n = n])
    assume step': "2 * i + 1 < n" "Less (h ! minChild h i n) (h ! i)"
      "down h i n = down (Swap h i (minChild h i n)) (minChild h i n) n"
    have "minChild h i n < length h" "i < length h"
      using minChild_range [of i n h] step'(1) step.prems by auto
    then show ?thesis using step step' by (simp add: mset_Swap)
  qed auto
qed

lemma down_beyond: "n \<le> length h \<Longrightarrow> n \<le> m \<Longrightarrow> fst (down h i n) ! m = h ! m"
proof (induction h i n rule: down_induct)
  case (step h i n)
  show ?case
  proof (rule down_cases [where h = h and i = i and n = n])
    assume step': "2 * i + 1 < n" "Less (h ! minChild h i n) (h ! i)"
      "down h i n = down (Swap h i (minChild h i n)) (minChild h i n) n"
    have "minChild h i n < n" "i < minChild h i n"
      using minChild_range [of i n h] step'(1) by auto
    then show ?thesis using step step' by (simp add: nth_Swap)
  qed auto
qed

lemma snd_down_ge: "i \<le> snd (down h i n)"
proof (induction h i n rule: down_induct)
  case (step h i n)
  show ?case
  proof (rule down_cases [where h = h and i = i and n = n])
    assume step': "2 * i + 1 < n" "Less (h ! minChild h i n) (h ! i)"
      "down h i n = down (Swap h i (minChild h i n)) (minChild h i n) n"
    have "i < minChild h i n"
      using minChild_range [of i n h] step'(1) by auto
    then show ?thesis using step step' by simp
  qed auto
qed

lemma length_up [simp]: "length (up h j) = length h"
proof (induction h j rule: up_induct)
  case (step h j)
  show ?case
  proof (cases "0 < j \<and> Less (h ! j) (h ! ((j - 1) div 2))")
    case True
    then show ?thesis using step by (simp add: up_step)
  next
    case False
    then show ?thesis by (simp add: up_stop)
  qed
qed

lemma mset_up: "j < length h \<Longrightarrow> mset (up h j) = mset h"
proof (induction h j rule: up_induct)
  case (step h j)
  show ?case
  proof (cases "0 < j \<and> Less (h ! j) (h ! ((j - 1) div 2))")
    case True
    have "(j - 1) div 2 < length h" using True parent_less [of j] step.prems by simp
    then show ?thesis using step True by (simp add: up_step mset_Swap)
  next
    case False
    then show ?thesis by (simp add: up_stop)
  qed
qed



subsection \<open>BookQueue\<close>

text \<open>
  A cancel channel (\<^verbatim>\<open>chan struct{}\<close>) is an address: \<open>nextChan\<close> is the allocator of
  \<^verbatim>\<open>make\<close>, and \<open>closedChans\<close> logs every \<^verbatim>\<open>close\<close> in the order it happened (Go panics
  when a channel is closed a second time, so a channel twice in the log is that panic).
  \<^verbatim>\<open>activeDownloads\<close> only ever stores \<^verbatim>\<open>true\<close>; it is the set of its keys.
\<close>

record BookQueue =
  queue :: PriorityQueue
  status :: "(string, QueueStatus) fmap"
  bookData :: "(string, BookInfo) fmap"
  statusTimestamps :: "(string, int) fmap"
  statusTimeout :: int
  cancelFlags :: "(string, nat) fmap"
  activeDownloads :: "string fset"
  nextChan :: nat
  closedChans :: "nat list"

definition NewBookQueue :: "int \<Rightarrow> BookQueue" where
  "NewBookQueue timeout =
     \<lparr> queue = heap_Init [], status = fmempty, bookData = fmempty,
       statusTimestamps = fmempty, statusTimeout = timeout, cancelFlags = fmempty,
       activeDownloads = {||}, nextChan = 0, closedChans = [] \<rparr>"

definition updateStatus :: "string \<Rightarrow> QueueStatus \<Rightarrow> int \<Rightarrow> BookQueue \<Rightarrow> BookQueue" where
  "updateStatus bookID st now bq =
     bq\<lparr> status := fmupd bookID st (status bq),
         statusTimestamps := fmupd bookID now (statusTimestamps bq) \<rparr>"

text \<open>
  \<^verbatim>\<open>Add\<close> reads the clock twice: \<open>added\<close> for the item, \<open>now\<close> in \<^verbatim>\<open>updateStatus\<close>.
\<close>

definition Add :: "string \<Rightarrow> BookInfo \<Rightarrow> int \<Rightarrow> int \<Rightarrow> int \<Rightarrow> BookQueue \<Rightarrow> BookQueue" where
  "Add bookID book priority added now bq =
     (case fmlookup (status bq) bookID of
        Some st \<Rightarrow>
          if st \<noteq> StatusError \<and> st \<noteq> StatusDone \<and> st \<noteq> StatusCancelled then bq
          else
            updateStatus bookID StatusQueued now
              (bq\<lparr> queue := heap_Push (queue bq)
                               \<lparr> BookID = bookID, Priority = priority, AddedTime = added \<rparr>,
                    bookData := fmupd bookID (book\<lparr> BookInfo.Priority := priority \<rparr>) (bookData bq) \<rparr>)
      | None \<Rightarrow>
          updateStatus bookID StatusQueued now
            (bq\<lparr> queue := heap_Push (queue bq)
                             \<lparr> BookID = bookID, Priority = priority, AddedTime = added \<rparr>,
                  bookData := fmupd bookID (book\<lparr> BookInfo.Priority := priority \<rparr>) (bookData bq) \<rparr>))"

text \<open>
  \<^verbatim>\<open>GetNext\<close>: the loop pops until an item is found whose status is not cancelled. The
  status of the dispatched id is left as it is; the worker sets it to downloading with
  its next call (\<^verbatim>\<open>UpdateStatus\<close>). The result is the new state and, when an item was
  found, its id and the cancel channel made for it.
\<close>

function GetNext :: "BookQueue \<Rightarrow> BookQueue \<times> (string \<times> nat) option" where
  "GetNext bq =
     (if length (queue bq) > 0 then
        let (item, q') = heap_Pop (queue bq);
            bq' = bq\<lparr> queue := q' \<rparr>;
            bookID = BookID item
        in if fmlookup (status bq') bookID = Some StatusCancelled then GetNext bq'
           else
             let cancelChan = nextChan bq' in
             (bq'\<lparr> cancelFlags := fmupd bookID cancelChan (cancelFlags bq'),
                   activeDownloads := finsert bookID (activeDownloads bq'),
                   nextChan := Suc cancelChan \<rparr>,
              Some (bookID, cancelChan))
      else (bq, None))"
  by pat_completeness auto
termination
  by (relation "measure (\<lambda>bq. length (queue bq))") (auto simp: heap_Pop_def Let_def)

declare GetNext.simps [simp del]

text \<open>
  The three places that close a cancel channel do it the same way:
  \<^verbatim>\<open>if ch, exists := bq.cancelFlags[bookID]; exists { close(ch); delete(bq.cancelFlags, bookID) }\<close>.
\<close>

definition closeFlag :: "string \<Rightarrow> BookQueue \<Rightarrow> BookQueue" where
  "closeFlag bookID bq =
     (case fmlookup (cancelFlags bq) bookID of
        Some ch \<Rightarrow> bq\<lparr> closedChans := closedChans bq @ [ch],
                        cancelFlags := fmdrop bookID (cancelFlags bq) \<rparr>
      | None \<Rightarrow> bq)"

definition isTerminal :: "QueueStatus \<Rightarrow> bool" where
  "isTerminal st =
     (st = StatusAvailable \<or> st = StatusError \<or> st = StatusDone \<or> st = StatusCancelled)"

definition UpdateStatus :: "string \<Rightarrow> QueueStatus \<Rightarrow> int \<Rightarrow> BookQueue \<Rightarrow> BookQueue" where
  "UpdateStatus bookID st now bq =
     (let bq1 = updateStatus bookID st now bq in
      if isTerminal st
      then closeFlag bookID (bq1\<lparr> activeDownloads := activeDownloads bq1 |-| {|bookID|} \<rparr>)
      else bq1)"

definition UpdateDownloadPath :: "string \<Rightarrow> string \<Rightarrow> BookQueue \<Rightarrow> BookQueue" where
  "UpdateDownloadPath bookID downloadPath bq =
     (case fmlookup (bookData bq) bookID of
        Some book \<Rightarrow>
          bq\<lparr> bookData := fmupd bookID (book\<lparr> DownloadPath := Some downloadPath \<rparr>) (bookData bq) \<rparr>
      | None \<Rightarrow> bq)"

definition UpdateProgress :: "string \<Rightarrow> real \<Rightarrow> BookQueue \<Rightarrow> BookQueue" where
  "UpdateProgress bookID progress bq =
     (case fmlookup (bookData bq) bookID of
        Some book \<Rightarrow>
          bq\<lparr> bookData := fmupd bookID (book\<lparr> Progress := Some progress \<rparr>) (bookData bq) \<rparr>
      | None \<Rightarrow> bq)"

definition CancelDownload :: "string \<Rightarrow> int \<Rightarrow> BookQueue \<Rightarrow> BookQueue \<times> bool" where
  "CancelDownload bookID now bq =
     (case fmlookup (status bq) bookID of
        None \<Rightarrow> (bq, False)
      | Some currentStatus \<Rightarrow>
          if currentStatus = StatusDownloading
          then (updateStatus bookID StatusCancelled now (closeFlag bookID bq), True)
          else if currentStatus = StatusQueued
          then (updateStatus bookID StatusCancelled now bq, True)
          else (bq, False))"

text \<open>The index of the first item of the queue with the given id, as the loops find it.\<close>

fun indexOf :: "string \<Rightarrow> PriorityQueue \<Rightarrow> nat option" where
  "indexOf bookID [] = None"
| "indexOf bookID (item # rest) =
     (if BookID item = bookID then Some 0 else map_option Suc (indexOf bookID rest))"

definition setBookPriority ::
  "string \<Rightarrow> int \<Rightarrow> (string, BookInfo) fmap \<Rightarrow> (string, BookInfo) fmap" where
  "setBookPriority bookID newPriority books =
     (case fmlookup books bookID of
        Some book \<Rightarrow> fmupd bookID (book\<lparr> BookInfo.Priority := newPriority \<rparr>) books
      | None \<Rightarrow> books)"

definition SetPriority :: "string \<Rightarrow> int \<Rightarrow> BookQueue \<Rightarrow> BookQueue \<times> bool" where
  "SetPriority bookID newPriority bq =
     (if fmlookup (status bq) bookID \<noteq> Some StatusQueued then (bq, False)
      else
        case indexOf bookID (queue bq) of
          Some i \<Rightarrow>
            (bq\<lparr> queue := heap_Fix ((queue bq)[i := (queue bq ! i)\<lparr> Priority := newPriority \<rparr>]) i,
                 bookData := setBookPriority bookID newPriority (bookData bq) \<rparr>,
             True)
        | None \<Rightarrow> (bq, False))"

text \<open>
  \<^verbatim>\<open>ReorderQueue\<close>: one pass over the slice sets the priority of each item whose id is a
  key of the argument (and of its book), then \<^verbatim>\<open>heap.Init\<close> runs on the whole slice.
\<close>

definition reorderItem :: "(string, int) fmap \<Rightarrow> QueueItem \<Rightarrow> QueueItem" where
  "reorderItem bookPriorities item =
     (case fmlookup bookPriorities (BookID item) of
        Some newPriority \<Rightarrow> item\<lparr> Priority := newPriority \<rparr>
      | None \<Rightarrow> item)"

definition reorderBook ::
  "(string, int) fmap \<Rightarrow> QueueItem \<Rightarrow> (string, BookInfo) fmap \<Rightarrow> (string, BookInfo) fmap" where
  "reorderBook bookPriorities item books =
     (case fmlookup bookPriorities (BookID item) of
        Some newPriority \<Rightarrow> setBookPriority (BookID item) newPriority books
      | None \<Rightarrow> books)"

definition ReorderQueue :: "(string, int) fmap \<Rightarrow> BookQueue \<Rightarrow> BookQueue \<times> bool" where
  "ReorderQueue bookPriorities bq =
     (bq\<lparr> queue := heap_Init (map (reorderItem bookPriorities) (queue bq)),
          bookData := fold (reorderBook bookPriorities) (queue bq) (bookData bq) \<rparr>,
      True)"

text \<open>
  Go ranges over a map in no fixed order. The loops over \<^verbatim>\<open>bq.status\<close> below treat each
  key on its own, so the order only shows in the order of the slice \<^verbatim>\<open>toRemove\<close>; the
  model visits the keys in ascending order.
\<close>

definition statusKeys :: "BookQueue \<Rightarrow> string list" where
  "statusKeys bq = sorted_list_of_fset (fmdom (status bq))"

definition isCompleted :: "QueueStatus \<Rightarrow> bool" where
  "isCompleted st = (st = StatusDone \<or> st = StatusError \<or> st = StatusCancelled)"

definition removeCompleted :: "string \<Rightarrow> BookQueue \<Rightarrow> BookQueue" where
  "removeCompleted bookID bq =
     (let bq1 = closeFlag bookID
                  (bq\<lparr> status := fmdrop bookID (status bq),
                       statusTimestamps := fmdrop bookID (statusTimestamps bq),
                       bookData := fmdrop bookID (bookData bq) \<rparr>)
      in bq1\<lparr> activeDownloads := activeDownloads bq1 |-| {|bookID|} \<rparr>)"

definition ClearCompleted :: "BookQueue \<Rightarrow> BookQueue \<times> nat" where
  "ClearCompleted bq =
     (let toRemove = filter (\<lambda>bookID. case fmlookup (status bq) bookID of
                                        Some st \<Rightarrow> isCompleted st | None \<Rightarrow> False)
                       (statusKeys bq)
      in (fold removeCompleted toRemove bq, length toRemove))"

text \<open>
  \<^verbatim>\<open>Refresh\<close> (the sweeper). \<open>currentTime\<close> is the reading at its start and \<open>nowAt k\<close> the
  reading \<^verbatim>\<open>updateStatus\<close> takes when the record of \<open>k\<close> is demoted to done. The variable
  \<^verbatim>\<open>status\<close> of the loop keeps the value the record had when the loop reached it.
\<close>

definition refreshKey ::
  "int \<Rightarrow> (string \<Rightarrow> int) \<Rightarrow> string \<Rightarrow> BookQueue \<times> string list \<Rightarrow> BookQueue \<times> string list" where
  "refreshKey currentTime nowAt bookID acc =
     (let (bq, toRemove) = acc in
      case fmlookup (status bq) bookID of
        None \<Rightarrow> (bq, toRemove)
      | Some st \<Rightarrow>
          let bq1 =
                (if st = StatusAvailable then
                   (case fmlookup (bookData bq) bookID of
                      Some book \<Rightarrow>
                        if DownloadPath book = None
                        then updateStatus bookID StatusDone (nowAt bookID) bq else bq
                    | None \<Rightarrow> bq)
                 else bq)
          in case fmlookup (statusTimestamps bq1) bookID of
               Some lastUpdate \<Rightarrow>
                 if currentTime - lastUpdate > statusTimeout bq1 \<and>
                    (st = StatusDone \<or> st = StatusError \<or> st = StatusAvailable \<or> st = StatusCancelled)
                 then (bq1, toRemove @ [bookID]) else (bq1, toRemove)
             | None \<Rightarrow> (bq1, toRemove))"

definition removeStale :: "string \<Rightarrow> BookQueue \<Rightarrow> BookQueue" where
  "removeStale bookID bq =
     bq\<lparr> status := fmdrop bookID (status bq),
         statusTimestamps := fmdrop bookID (statusTimestamps bq),
         bookData := fmdrop bookID (bookData bq) \<rparr>"

definition Refresh :: "int \<Rightarrow> (string \<Rightarrow> int) \<Rightarrow> BookQueue \<Rightarrow> BookQueue" where
  "Refresh currentTime nowAt bq =
     (let (bq1, toRemove) = fold (refreshKey currentTime nowAt) (statusKeys bq) (bq, [])
      in fold removeStale toRemove bq1)"

definition SetStatusTimeout :: "int \<Rightarrow> BookQueue \<Rightarrow> BookQueue" where
  "SetStatusTimeout timeout bq = bq\<lparr> statusTimeout := timeout \<rparr>"

subsection \<open>Runs of registry operations\<close>

text \<open>
  Every mutating method of the registry as one operation; a run applies a list of them
  from left to right. \<open>OpRefresh\<close> is what \<^verbatim>\<open>GetStatus\<close> does to the state.
\<close>

datatype op =
    OpAdd string BookInfo int int int
  | OpGetNext
  | OpUpdateStatus string QueueStatus int
  | OpUpdateDownloadPath string string
  | OpUpdateProgress string real
  | OpCancelDownload string int
  | OpSetPriority string int
  | OpReorderQueue "(string, int) fmap"
  | OpClearCompleted
  | OpRefresh int "string \<Rightarrow> int"
  | OpSetStatusTimeout int

fun step :: "op \<Rightarrow> BookQueue \<Rightarrow> BookQueue" where
  "step (OpAdd bookID book priority added now) bq = Add bookID book priority added now bq"
| "step OpGetNext bq = fst (GetNext bq)"
| "step (OpUpdateStatus bookID st now) bq = UpdateStatus bookID st now bq"
| "step (OpUpdateDownloadPath bookID p) bq = UpdateDownloadPath bookID p bq"
| "step (OpUpdateProgress bookID progress) bq = UpdateProgress bookID progress bq"
| "step (OpCancelDownload bookID now) bq = fst (CancelDownload bookID now bq)"
| "step (OpSetPriority bookID newPriority) bq = fst (SetPriority bookID newPriority bq)"
| "step (OpReorderQueue bookPriorities) bq = fst (ReorderQueue bookPriorities bq)"
| "step OpClearCompleted bq = fst (ClearCompleted bq)"
| "step (OpRefresh currentTime nowAt) bq = Refresh currentTime nowAt bq"
| "step (OpSetStatusTimeout timeout) bq = SetStatusTimeout timeout bq"

definition run :: "op list \<Rightarrow> BookQueue \<Rightarrow> BookQueue" where
  "run ops bq = fold step ops bq"


section \<open>The heap order\<close>

lemma no_swap_children:
  assumes "n \<le> 2 * i + 1 \<or> \<not> Less (h ! minChild h i n) (h ! i)"
    and "c < n" "0 < c" "(c - 1) div 2 = i"
  shows "le (h ! i) (h ! c)"
proof -
  have c: "c = 2 * i + 1 \<or> c = 2 * i + 2"
    using assms(3,4) parent_child by blast
  then have lt: "2 * i + 1 < n" using assms(2) by auto
  with assms(1) have m: "le (h ! i) (h ! minChild h i n)" by (simp add: le_def)
  show ?thesis
  proof (cases "c = minChild h i n")
    case True
    then show ?thesis using m by simp
  next
    case False
    then have "le (h ! minChild h i n) (h ! c)"
      using c assms(2) by (auto simp: minChild_def le_def Less_le [unfolded le_def] split: if_splits)
    then show ?thesis using m le_item_trans by blast
  qed
qed

lemma minChild_least:
  assumes "2 * i + 1 < n" "c < n" "0 < c" "(c - 1) div 2 = i"
  shows "le (h ! minChild h i n) (h ! c)"
proof -
  have c: "c = 2 * i + 1 \<or> c = 2 * i + 2"
    using assms(3,4) parent_child by blast
  then show ?thesis
    using assms(2) by (auto simp: minChild_def le_def Less_le [unfolded le_def] le_item_refl [unfolded le_def] split: if_splits)
qed

lemma down_heap:
  "n \<le> length h \<Longrightarrow> hp_except h n k i \<Longrightarrow> grand h n k i \<Longrightarrow> hp (fst (down h i n)) n k"
proof (induction h i n rule: down_induct)
  case (step h i n)
  show ?case
  proof (rule down_cases [where h = h and i = i and n = n])
    assume a: "n \<le> 2 * i + 1" "down h i n = (h, i)"
    show ?thesis
      unfolding a(2) fst_conv hp_def
    proof (intro allI impI)
      fix c assume c: "c < n" "0 < c \<and> k \<le> (c - 1) div 2"
      have "(c - 1) div 2 \<noteq> i" using a(1) c by (auto simp: parent_child)
      then show "le (h ! ((c - 1) div 2)) (h ! c)"
        using step.prems(2) c by (simp add: hp_except_def)
    qed
  next
    assume a: "2 * i + 1 < n" "\<not> Less (h ! minChild h i n) (h ! i)" "down h i n = (h, i)"
    show ?thesis
      unfolding a(3) fst_conv hp_def
    proof (intro allI impI)
      fix c assume c: "c < n" "0 < c \<and> k \<le> (c - 1) div 2"
      show "le (h ! ((c - 1) div 2)) (h ! c)"
      proof (cases "(c - 1) div 2 = i")
        case True
        then show ?thesis using no_swap_children [of n i h c] a(2) c by simp
      next
        case False
        then show ?thesis using step.prems(2) c by (simp add: hp_except_def)
      qed
    qed
  next
    assume a: "2 * i + 1 < n" "Less (h ! minChild h i n) (h ! i)"
      "down h i n = down (Swap h i (minChild h i n)) (minChild h i n) n"
    define j where "j = minChild h i n"
    define h' where "h' = Swap h i j"
    have j: "j < n" "i < j" "j < length h" "i < length h" "(j - 1) div 2 = i" "0 < j"
      using minChild_range [of i n h] minChild_cases [of h i n] a(1) step.prems(1)
      by (auto simp: j_def)
    have nth: "\<And>m. h' ! m = (if m = j then h ! i else if m = i then h ! j else h ! m)"
      unfolding h'_def using j by (simp add: nth_Swap)
    have ex: "hp_except h' n k j"
      unfolding hp_except_def
    proof (intro allI impI)
      fix c assume c: "c < n" "0 < c \<and> k \<le> (c - 1) div 2 \<and> (c - 1) div 2 \<noteq> j"
      let ?p = "(c - 1) div 2"
      have pc: "?p < c" using c parent_less by simp
      show "le (h' ! ?p) (h' ! c)"
      proof (cases "?p = i")
        case True
        show ?thesis
        proof (cases "c = j")
          case True
          then show ?thesis using \<open>?p = i\<close> a(2) j nth
            by (auto simp: j_def le_def Less_def split: if_splits)
        next
          case False
          have "le (h ! j) (h ! c)"
            unfolding j_def using minChild_least [of i n c h] a(1) c True by simp
          then show ?thesis using True False nth pc j by auto
        qed
      next
        case False
        show ?thesis
        proof (cases "c = i")
          case True
          then have "le (h ! ((i - 1) div 2)) (h ! j)"
            using step.prems(3) c j unfolding grand_def by auto
          then show ?thesis using True nth pc j c by auto
        next
          case F2: False
          have "c \<noteq> j" using False j by auto
          moreover have "le (h ! ?p) (h ! c)"
            using step.prems(2) c False by (simp add: hp_except_def)
          ultimately show ?thesis using False F2 nth c by auto
        qed
      qed
    qed
    have gr: "grand h' n k j"
      unfolding grand_def
    proof (intro allI impI)
      fix c assume g: "0 < j \<and> k \<le> (j - 1) div 2" and c: "c < n" "0 < c \<and> (c - 1) div 2 = j"
      have "c \<noteq> i" "c \<noteq> j" "j < c" using c j parent_less [of c] by auto
      moreover have "le (h ! j) (h ! c)"
        using step.prems(2) c g j unfolding hp_except_def by auto
      ultimately show "le (h' ! ((j - 1) div 2)) (h' ! c)"
        using nth j by auto
    qed
    have "hp (fst (down h' j n)) n k"
      using step.IH [OF a(1,2)] step.prems(1) ex gr by (simp add: h'_def j_def)
    then show ?thesis by (simp add: a(3) h'_def j_def)
  qed
qed


lemma up_heap:
  assumes "j < length h"
    and "\<forall>c<length h. 0 < c \<and> c \<noteq> j \<longrightarrow> le (h ! ((c - 1) div 2)) (h ! c)"
    and "0 < j \<longrightarrow> (\<forall>c<length h. 0 < c \<and> (c - 1) div 2 = j \<longrightarrow> le (h ! ((j - 1) div 2)) (h ! c))"
  shows "heap_ok (up h j)"
  using assms
proof (induction h j rule: up_induct)
  case (step h j)
  let ?i = "(j - 1) div 2"
  show ?case
  proof (cases "0 < j \<and> Less (h ! j) (h ! ?i)")
    case False
    then have "up h j = h" by (simp add: up_stop)
    moreover have "heap_ok h"
      unfolding heap_ok_def
    proof (intro allI impI)
      fix c assume c: "c < length h" "0 < c"
      show "\<not> Less (h ! c) (h ! ((c - 1) div 2))"
      proof (cases "c = j")
        case True
        then show ?thesis using False c by simp
      next
        case F: False
        then show ?thesis using step.prems(2) c by (simp add: le_def)
      qed
    qed
    ultimately show ?thesis by simp
  next
    case True
    define i where "i = ?i"
    define h' where "h' = Swap h i j"
    have i: "i < j" "i < length h" "0 < j" "Less (h ! j) (h ! i)"
      using True parent_less [of j] step.prems(1) by (auto simp: i_def)
    have nth: "\<And>m. h' ! m = (if m = j then h ! i else if m = i then h ! j else h ! m)"
      unfolding h'_def using i step.prems(1) by (simp add: nth_Swap)
    have len: "length h' = length h" by (simp add: h'_def)
    have p1: "\<forall>c<length h'. 0 < c \<and> c \<noteq> i \<longrightarrow> le (h' ! ((c - 1) div 2)) (h' ! c)"
    proof (intro allI impI)
      fix c assume c: "c < length h'" "0 < c \<and> c \<noteq> i"
      let ?p = "(c - 1) div 2"
      have pc: "?p < c" using c parent_less by simp
      show "le (h' ! ?p) (h' ! c)"
      proof (cases "c = j")
        case True
        then show ?thesis using i nth by (auto simp: i_def le_def Less_def split: if_splits)
      next
        case cj: False
        have hc: "le (h ! ?p) (h ! c)" using step.prems(2) c cj len by simp
        show ?thesis
        proof (cases "?p = i")
          case True
          have "le (h ! j) (h ! i)" using i Less_le by simp
          then have "le (h ! j) (h ! c)" using hc True le_item_trans by metis
          then show ?thesis using True cj c nth i by auto
        next
          case pi: False
          show ?thesis
          proof (cases "?p = j")
            case True
            have "le (h ! i) (h ! c)"
              using step.prems(3) i c len True by (simp add: i_def)
            then show ?thesis using True cj c nth i by auto
          next
            case False
            then show ?thesis using pi cj c nth hc by auto
          qed
        qed
      qed
    qed
    have p2: "0 < i \<longrightarrow> (\<forall>c<length h'. 0 < c \<and> (c - 1) div 2 = i \<longrightarrow> le (h' ! ((i - 1) div 2)) (h' ! c))"
    proof (intro allI impI)
      fix c assume i0: "0 < i" and c: "c < length h'" "0 < c \<and> (c - 1) div 2 = i"
      let ?q = "(i - 1) div 2"
      have q: "?q < i" using i0 parent_less by simp
      have qi: "le (h ! ?q) (h ! i)" using step.prems(2) i0 i by simp
      have "le (h ! ?q) (h' ! c)"
      proof (cases "c = j")
        case True
        then show ?thesis using qi nth by simp
      next
        case False
        then have "le (h ! i) (h ! c)" using step.prems(2) c len by auto
        moreover have "c \<noteq> i" using c parent_less [of c] by auto
        ultimately show ?thesis using qi False nth le_item_trans by (metis (full_types))
      qed
      moreover have "h' ! ?q = h ! ?q" using q i nth by auto
      ultimately show "le (h' ! ?q) (h' ! c)" by simp
    qed
    have "heap_ok (up h' i)"
      using step.IH [OF i(3)] True i(2) p1 p2 len
      by (simp add: h'_def i_def)
    moreover have "up h j = up h' i"
      using True by (simp add: up_step h'_def i_def)
    ultimately show ?thesis by simp
  qed
qed

lemma heap_ok_root:
  assumes "heap_ok h" "c < length h"
  shows "le (h ! 0) (h ! c)"
  using assms(2)
proof (induction c rule: less_induct)
  case (less c)
  show ?case
  proof (cases "c = 0")
    case True
    then show ?thesis by (simp add: le_item_refl)
  next
    case False
    let ?p = "(c - 1) div 2"
    have p: "?p < c" using False parent_less by simp
    then have "le (h ! 0) (h ! ?p)" using less by simp
    moreover have "le (h ! ?p) (h ! c)"
      using assms(1) less.prems False by (simp add: heap_ok_def le_def)
    ultimately show ?thesis using le_item_trans by blast
  qed
qed


subsection \<open>heap.Init, heap.Push, heap.Pop, heap.Fix\<close>

lemma heapify_fold:
  "k \<le> length h div 2 \<Longrightarrow> n = length h \<Longrightarrow> hp h n k \<Longrightarrow>
   hp (fold (\<lambda>i h'. fst (down h' i n)) (rev [0..<k]) h) n 0
   \<and> length (fold (\<lambda>i h'. fst (down h' i n)) (rev [0..<k]) h) = n
   \<and> mset (fold (\<lambda>i h'. fst (down h' i n)) (rev [0..<k]) h) = mset h"
proof (induction k arbitrary: h)
  case 0
  then show ?case by simp
next
  case (Suc k)
  let ?h = "fst (down h k n)"
  have ex: "hp_except h n k k"
    using Suc.prems(3) unfolding hp_except_def hp_def by auto
  have gr: "grand h n k k"
    unfolding grand_def using parent_less [of k] by auto
  have 1: "hp ?h n k" using down_heap [OF _ ex gr] Suc.prems(2) by simp
  have 2: "length ?h = length h" by simp
  have 3: "mset ?h = mset h" using mset_down [of n h k] Suc.prems(2) by simp
  show ?case
    using Suc.IH [of ?h] Suc.prems(1,2) 1 2 3 by simp
qed

lemma heap_Init_heap: "heap_ok (heap_Init h)"
proof -
  have "hp h (length h) (length h div 2)"
    unfolding hp_def by (auto; arith)
  from heapify_fold [OF le_refl refl this] show ?thesis
    by (simp add: heap_Init_def heap_ok_hp)
qed

lemma mset_heap_Init: "mset (heap_Init h) = mset h"
proof -
  have "hp h (length h) (length h div 2)"
    unfolding hp_def by (auto; arith)
  from heapify_fold [OF le_refl refl this] show ?thesis
    by (simp add: heap_Init_def)
qed

lemma length_heap_Init: "length (heap_Init h) = length h"
  using mset_heap_Init [of h] by (metis size_mset)

lemma mset_heap_Push: "mset (heap_Push h x) = add_mset x (mset h)"
  by (simp add: heap_Push_def mset_up)

lemma heap_Push_heap:
  assumes "heap_ok h"
  shows "heap_ok (heap_Push h x)"
  unfolding heap_Push_def
proof (rule up_heap)
  show "length h < length (h @ [x])" by simp
  show "\<forall>c<length (h @ [x]). 0 < c \<and> c \<noteq> length h \<longrightarrow>
          le ((h @ [x]) ! ((c - 1) div 2)) ((h @ [x]) ! c)"
  proof (intro allI impI)
    fix c assume c: "c < length (h @ [x])" "0 < c \<and> c \<noteq> length h"
    then have "c < length h" by simp
    moreover have "(c - 1) div 2 < length h" using c parent_less [of c] by simp
    ultimately show "le ((h @ [x]) ! ((c - 1) div 2)) ((h @ [x]) ! c)"
      using assms c by (simp add: nth_append heap_ok_def le_def)
  qed
  show "0 < length h \<longrightarrow>
        (\<forall>c<length (h @ [x]). 0 < c \<and> (c - 1) div 2 = length h \<longrightarrow>
           le ((h @ [x]) ! ((length h - 1) div 2)) ((h @ [x]) ! c))"
  proof (intro allI impI)
    fix c assume "c < length (h @ [x])" "0 < c \<and> (c - 1) div 2 = length h"
    then have False using parent_less [of c] by simp
    then show "le ((h @ [x]) ! ((length h - 1) div 2)) ((h @ [x]) ! c)" ..
  qed
qed

lemma heap_Pop_props:
  assumes "heap_ok h" "h \<noteq> []"
  shows "fst (heap_Pop h) = h ! 0"
    and "heap_ok (snd (heap_Pop h))"
    and "add_mset (h ! 0) (mset (snd (heap_Pop h))) = mset h"
    and "length (snd (heap_Pop h)) = length h - 1"
proof -
  define n where "n = length h - 1"
  define h1 where "h1 = Swap h 0 n"
  define h2 where "h2 = fst (down h1 0 n)"
  have n: "n < length h" "length h = Suc n" using assms(2) by (auto simp: n_def)
  have pop: "heap_Pop h = (last h2, butlast h2)"
    by (simp add: heap_Pop_def Let_def h2_def h1_def n_def)
  have len: "length h2 = Suc n" "length h1 = Suc n" using n by (simp_all add: h2_def h1_def)
  have nth1: "\<And>m. h1 ! m = (if m = n then h ! 0 else if m = 0 then h ! n else h ! m)"
    unfolding h1_def using n by (simp add: nth_Swap)
  have "h2 ! n = h1 ! n" unfolding h2_def using len by (intro down_beyond) simp_all
  then have "h2 ! n = h ! 0" using nth1 by simp
  moreover have h2ne: "h2 \<noteq> []" using len by auto
  ultimately have last: "last h2 = h ! 0" using len by (simp add: last_conv_nth)
  show "fst (heap_Pop h) = h ! 0" using pop last by simp
  have ex: "hp_except h1 n 0 0"
    unfolding hp_except_def
  proof (intro allI impI)
    fix c assume c: "c < n" "0 < c \<and> 0 \<le> (c - 1) div 2 \<and> (c - 1) div 2 \<noteq> 0"
    have "(c - 1) div 2 < c" using c parent_less by simp
    then show "le (h1 ! ((c - 1) div 2)) (h1 ! c)"
      using assms(1) c n nth1 by (auto simp: heap_ok_def le_def)
  qed
  have gr: "grand h1 n 0 0" by (simp add: grand_def)
  have "hp h2 n 0" unfolding h2_def using down_heap [OF _ ex gr] len by simp
  then show "heap_ok (snd (heap_Pop h))"
    using pop len by (auto simp: heap_ok_def hp_def le_def nth_butlast dest: parent_less)
  have "mset h2 = mset h"
    unfolding h2_def h1_def using n mset_down [of n "Swap h 0 n" 0] by (simp add: mset_Swap)
  moreover have "mset h2 = add_mset (last h2) (mset (butlast h2))"
    using h2ne by (metis append_butlast_last_id mset.simps(2) mset_append union_mset_add_mset_right add.right_neutral mset.simps(1))
  ultimately show "add_mset (h ! 0) (mset (snd (heap_Pop h))) = mset h"
    using pop last by simp
  show "length (snd (heap_Pop h)) = length h - 1"
    using pop len n by simp
qed


lemma mset_heap_Fix: "i < length g \<Longrightarrow> mset (heap_Fix g i) = mset g"
  using mset_down [of "length g" g i] mset_up [of i "fst (down g i (length g))"]
  by (simp add: heap_Fix_def split_beta)

lemma heap_Fix_heap:
  assumes "heap_ok h" "i < length h"
  shows "heap_ok (heap_Fix (h[i := x]) i)"
proof -
  define g where "g = h[i := x]"
  define n where "n = length g"
  have len: "length g = length h" "n = length h" by (simp_all add: g_def n_def)
  have nth: "\<And>m. m < length h \<Longrightarrow> g ! m = (if m = i then x else h ! m)"
    by (simp add: g_def nth_list_update)
  have old: "\<And>c. c < length h \<Longrightarrow> 0 < c \<Longrightarrow> le (h ! ((c - 1) div 2)) (h ! c)"
    using assms(1) by (simp add: heap_ok_def le_def)
  have grand_old: "le (h ! ((i - 1) div 2)) (h ! c)"
    if "0 < i" "c < length h" "0 < c" "(c - 1) div 2 = i" for c
    using old [of c] old [of i] that assms(2) le_item_trans by metis
  have gr: "0 < i \<longrightarrow> (\<forall>c<length g. 0 < c \<and> (c - 1) div 2 = i \<longrightarrow> le (g ! ((i - 1) div 2)) (g ! c))"
  proof (intro allI impI)
    fix c assume c: "0 < i" "c < length g" "0 < c \<and> (c - 1) div 2 = i"
    have "(i - 1) div 2 < i" "i < c" using c parent_less [of i] parent_less [of c] by auto
    then show "le (g ! ((i - 1) div 2)) (g ! c)"
      using grand_old [of c] c len nth assms(2) by auto
  qed
  show ?thesis
  proof (cases "n \<le> 2 * i + 1 \<or> \<not> Less (g ! minChild g i n) (g ! i)")
    case True
    then have d: "down g i n = (g, i)"
      using down_stop1 [of n i g] down_stop2 [of i n g] by (metis not_le_imp_less)
    then have fx: "heap_Fix g i = up g i" by (simp add: heap_Fix_def n_def)
    have "heap_ok (up g i)"
    proof (rule up_heap)
      show "i < length g" using assms(2) len by simp
      show "\<forall>c<length g. 0 < c \<and> c \<noteq> i \<longrightarrow> le (g ! ((c - 1) div 2)) (g ! c)"
      proof (intro allI impI)
        fix c assume c: "c < length g" "0 < c \<and> c \<noteq> i"
        have pc: "(c - 1) div 2 < c" using c parent_less by simp
        show "le (g ! ((c - 1) div 2)) (g ! c)"
        proof (cases "(c - 1) div 2 = i")
          case P: True
          then show ?thesis using no_swap_children [of n i g c] True c by (simp add: n_def)
        next
          case False
          then show ?thesis using old [of c] c len nth pc by auto
        qed
      qed
      show "0 < i \<longrightarrow> (\<forall>c<length g. 0 < c \<and> (c - 1) div 2 = i \<longrightarrow> le (g ! ((i - 1) div 2)) (g ! c))"
        by (rule gr)
    qed
    then show ?thesis using fx by (simp add: g_def)
  next
    case False
    then have a: "2 * i + 1 < n" "Less (g ! minChild g i n) (g ! i)" by auto
    define j where "j = minChild g i n"
    have j: "j < n" "i < j" "(j - 1) div 2 = i" "0 < j"
      using minChild_range [of i n g] minChild_cases [of g i n] a(1) by (auto simp: j_def)
    have d: "down g i n = down (Swap g i j) j n"
      using down_step [OF a] by (simp add: j_def)
    have "j \<le> snd (down (Swap g i j) j n)" by (rule snd_down_ge)
    then have "i < snd (down g i n)" using d j by simp
    then have fx: "heap_Fix g i = fst (down g i n)"
      by (simp add: heap_Fix_def n_def split_beta)
    have xj: "le (g ! j) x" "g ! j = h ! j"
      using a(2) Less_le nth [of i] nth [of j] assms(2) j len by (auto simp: j_def)
    have ex: "hp_except g n 0 i"
      unfolding hp_except_def
    proof (intro allI impI)
      fix c assume c: "c < n" "0 < c \<and> 0 \<le> (c - 1) div 2 \<and> (c - 1) div 2 \<noteq> i"
      have pc: "(c - 1) div 2 < c" using c parent_less by simp
      show "le (g ! ((c - 1) div 2)) (g ! c)"
      proof (cases "c = i")
        case True
        have "le (h ! ((i - 1) div 2)) (h ! j)"
          using grand_old [of j] j len True c by simp
        then have "le (h ! ((i - 1) div 2)) x" using xj le_item_trans by metis
        then show ?thesis using True nth pc c len by auto
      next
        case False
        then show ?thesis using old [of c] c len nth pc by auto
      qed
    qed
    have "grand g n 0 i" unfolding grand_def using gr by (simp add: n_def)
    then have "hp (fst (down g i n)) n 0"
      using down_heap [OF _ ex] by (simp add: n_def)
    then show ?thesis using fx by (simp add: heap_ok_hp n_def g_def)
  qed
qed

section \<open>Frame facts of the registry operations\<close>

lemma updateStatus_fields [simp]:
  "queue (updateStatus k st now bq) = queue bq"
  "bookData (updateStatus k st now bq) = bookData bq"
  "cancelFlags (updateStatus k st now bq) = cancelFlags bq"
  "activeDownloads (updateStatus k st now bq) = activeDownloads bq"
  "nextChan (updateStatus k st now bq) = nextChan bq"
  "closedChans (updateStatus k st now bq) = closedChans bq"
  "statusTimeout (updateStatus k st now bq) = statusTimeout bq"
  "status (updateStatus k st now bq) = fmupd k st (status bq)"
  "statusTimestamps (updateStatus k st now bq) = fmupd k now (statusTimestamps bq)"
  by (simp_all add: updateStatus_def)

lemma fmdrop_absent: "fmlookup m k = None \<Longrightarrow> fmdrop k m = m"
  by (rule fmap_ext) auto

lemma closeFlag_fields [simp]:
  "queue (closeFlag k bq) = queue bq"
  "bookData (closeFlag k bq) = bookData bq"
  "status (closeFlag k bq) = status bq"
  "statusTimestamps (closeFlag k bq) = statusTimestamps bq"
  "statusTimeout (closeFlag k bq) = statusTimeout bq"
  "activeDownloads (closeFlag k bq) = activeDownloads bq"
  "nextChan (closeFlag k bq) = nextChan bq"
  "cancelFlags (closeFlag k bq) = fmdrop k (cancelFlags bq)"
  by (simp_all add: closeFlag_def fmdrop_absent split: option.splits)


lemma removeCompleted_fields [simp]:
  "queue (removeCompleted k bq) = queue bq"
  "status (removeCompleted k bq) = fmdrop k (status bq)"
  "statusTimestamps (removeCompleted k bq) = fmdrop k (statusTimestamps bq)"
  "bookData (removeCompleted k bq) = fmdrop k (bookData bq)"
  "cancelFlags (removeCompleted k bq) = fmdrop k (cancelFlags bq)"
  "activeDownloads (removeCompleted k bq) = activeDownloads bq |-| {|k|}"
  "nextChan (removeCompleted k bq) = nextChan bq"
  "statusTimeout (removeCompleted k bq) = statusTimeout bq"
  by (simp_all add: removeCompleted_def Let_def)


lemma fold_removeCompleted_queue [simp]: "queue (fold removeCompleted ks bq) = queue bq"
  by (induction ks arbitrary: bq) simp_all

lemma fold_removeCompleted_status:
  "fmlookup (status (fold removeCompleted ks bq)) k =
     (if k \<in> set ks then None else fmlookup (status bq) k)"
  by (induction ks arbitrary: bq) auto

lemma fold_removeCompleted_bookData:
  "fmlookup (bookData (fold removeCompleted ks bq)) k =
     (if k \<in> set ks then None else fmlookup (bookData bq) k)"
  by (induction ks arbitrary: bq) auto

lemma fold_removeCompleted_timestamps:
  "fmlookup (statusTimestamps (fold removeCompleted ks bq)) k =
     (if k \<in> set ks then None else fmlookup (statusTimestamps bq) k)"
  by (induction ks arbitrary: bq) auto



lemma fold_removeCompleted_active:
  "(k |\<in>| activeDownloads (fold removeCompleted ks bq)) =
     (k \<notin> set ks \<and> k |\<in>| activeDownloads bq)"
  by (induction ks arbitrary: bq) auto

lemma removeStale_fields [simp]:
  "queue (removeStale k bq) = queue bq"
  "cancelFlags (removeStale k bq) = cancelFlags bq"
  "nextChan (removeStale k bq) = nextChan bq"
  "closedChans (removeStale k bq) = closedChans bq"
  "activeDownloads (removeStale k bq) = activeDownloads bq"
  by (simp_all add: removeStale_def)

lemma fold_removeStale_fields [simp]:
  "queue (fold removeStale ks bq) = queue bq"
  "cancelFlags (fold removeStale ks bq) = cancelFlags bq"
  "nextChan (fold removeStale ks bq) = nextChan bq"
  "closedChans (fold removeStale ks bq) = closedChans bq"
  "activeDownloads (fold removeStale ks bq) = activeDownloads bq"
  by (induction ks arbitrary: bq) simp_all

lemma refreshKey_fields:
  "queue (fst (refreshKey t nowAt k acc)) = queue (fst acc)"
  "cancelFlags (fst (refreshKey t nowAt k acc)) = cancelFlags (fst acc)"
  "nextChan (fst (refreshKey t nowAt k acc)) = nextChan (fst acc)"
  "closedChans (fst (refreshKey t nowAt k acc)) = closedChans (fst acc)"
  "activeDownloads (fst (refreshKey t nowAt k acc)) = activeDownloads (fst acc)"
  by (auto simp: refreshKey_def Let_def split: prod.splits option.splits)

lemma fold_refreshKey_fields:
  "queue (fst (fold (refreshKey t nowAt) ks acc)) = queue (fst acc)"
  "cancelFlags (fst (fold (refreshKey t nowAt) ks acc)) = cancelFlags (fst acc)"
  "nextChan (fst (fold (refreshKey t nowAt) ks acc)) = nextChan (fst acc)"
  "closedChans (fst (fold (refreshKey t nowAt) ks acc)) = closedChans (fst acc)"
  "activeDownloads (fst (fold (refreshKey t nowAt) ks acc)) = activeDownloads (fst acc)"
  by (induction ks arbitrary: acc) (simp_all add: refreshKey_fields)

lemma Refresh_fields [simp]:
  "queue (Refresh t nowAt bq) = queue bq"
  "cancelFlags (Refresh t nowAt bq) = cancelFlags bq"
  "nextChan (Refresh t nowAt bq) = nextChan bq"
  "closedChans (Refresh t nowAt bq) = closedChans bq"
  "activeDownloads (Refresh t nowAt bq) = activeDownloads bq"
  using fold_refreshKey_fields [of t nowAt "statusKeys bq" "(bq, [])"]
  by (simp_all add: Refresh_def split_beta)

lemma UpdateStatus_fields [simp]:
  "queue (UpdateStatus k st now bq) = queue bq"
  "bookData (UpdateStatus k st now bq) = bookData bq"
  "status (UpdateStatus k st now bq) = fmupd k st (status bq)"
  "nextChan (UpdateStatus k st now bq) = nextChan bq"
  by (simp_all add: UpdateStatus_def Let_def)

lemma UpdateDownloadPath_fields [simp]:
  "queue (UpdateDownloadPath k p bq) = queue bq"
  "status (UpdateDownloadPath k p bq) = status bq"
  "cancelFlags (UpdateDownloadPath k p bq) = cancelFlags bq"
  "nextChan (UpdateDownloadPath k p bq) = nextChan bq"
  "closedChans (UpdateDownloadPath k p bq) = closedChans bq"
  "activeDownloads (UpdateDownloadPath k p bq) = activeDownloads bq"
  by (simp_all add: UpdateDownloadPath_def split: option.splits)

lemma UpdateProgress_fields [simp]:
  "queue (UpdateProgress k p bq) = queue bq"
  "status (UpdateProgress k p bq) = status bq"
  "cancelFlags (UpdateProgress k p bq) = cancelFlags bq"
  "nextChan (UpdateProgress k p bq) = nextChan bq"
  "closedChans (UpdateProgress k p bq) = closedChans bq"
  "activeDownloads (UpdateProgress k p bq) = activeDownloads bq"
  by (simp_all add: UpdateProgress_def split: option.splits)

lemma CancelDownload_fields [simp]:
  "queue (fst (CancelDownload k now bq)) = queue bq"
  "nextChan (fst (CancelDownload k now bq)) = nextChan bq"
  "bookData (fst (CancelDownload k now bq)) = bookData bq"
  by (simp_all add: CancelDownload_def split: option.splits)

lemma Add_fields [simp]:
  "cancelFlags (Add k b p a now bq) = cancelFlags bq"
  "nextChan (Add k b p a now bq) = nextChan bq"
  "closedChans (Add k b p a now bq) = closedChans bq"
  "activeDownloads (Add k b p a now bq) = activeDownloads bq"
  by (simp_all add: Add_def split: option.splits)

lemma SetPriority_fields [simp]:
  "status (fst (SetPriority k p bq)) = status bq"
  "cancelFlags (fst (SetPriority k p bq)) = cancelFlags bq"
  "nextChan (fst (SetPriority k p bq)) = nextChan bq"
  "closedChans (fst (SetPriority k p bq)) = closedChans bq"
  "activeDownloads (fst (SetPriority k p bq)) = activeDownloads bq"
  by (simp_all add: SetPriority_def split: option.splits)

lemma ReorderQueue_fields [simp]:
  "status (fst (ReorderQueue m bq)) = status bq"
  "cancelFlags (fst (ReorderQueue m bq)) = cancelFlags bq"
  "nextChan (fst (ReorderQueue m bq)) = nextChan bq"
  "closedChans (fst (ReorderQueue m bq)) = closedChans bq"
  "activeDownloads (fst (ReorderQueue m bq)) = activeDownloads bq"
  by (simp_all add: ReorderQueue_def)

section \<open>GetNext\<close>

definition skipped :: "BookQueue \<Rightarrow> QueueItem \<Rightarrow> bool" where
  "skipped bq item = (fmlookup (status bq) (BookID item) = Some StatusCancelled)"

lemma GetNext_empty: "queue bq = [] \<Longrightarrow> GetNext bq = (bq, None)"
  by (subst GetNext.simps) simp

lemma GetNext_skip:
  "queue bq \<noteq> [] \<Longrightarrow> skipped bq (fst (heap_Pop (queue bq))) \<Longrightarrow>
   GetNext bq = GetNext (bq\<lparr> queue := snd (heap_Pop (queue bq)) \<rparr>)"
  by (subst GetNext.simps) (simp add: skipped_def split_beta Let_def)

lemma GetNext_take:
  "queue bq \<noteq> [] \<Longrightarrow> \<not> skipped bq (fst (heap_Pop (queue bq))) \<Longrightarrow>
   GetNext bq =
     (bq\<lparr> queue := snd (heap_Pop (queue bq)),
          cancelFlags := fmupd (BookID (fst (heap_Pop (queue bq)))) (nextChan bq) (cancelFlags bq),
          activeDownloads := finsert (BookID (fst (heap_Pop (queue bq)))) (activeDownloads bq),
          nextChan := Suc (nextChan bq) \<rparr>,
      Some (BookID (fst (heap_Pop (queue bq))), nextChan bq))"
  by (subst GetNext.simps) (simp add: skipped_def split_beta Let_def)

lemma GetNext_induct [case_names step]:
  assumes "\<And>bq. (queue bq \<noteq> [] \<Longrightarrow> skipped bq (fst (heap_Pop (queue bq))) \<Longrightarrow>
                 P (bq\<lparr> queue := snd (heap_Pop (queue bq)) \<rparr>)) \<Longrightarrow> P bq"
  shows "P bq"
proof (induction bq rule: GetNext.induct)
  case (1 bq)
  show ?case
  proof (rule assms)
    assume a: "queue bq \<noteq> []" "skipped bq (fst (heap_Pop (queue bq)))"
    obtain item q' where p: "heap_Pop (queue bq) = (item, q')" by (cases "heap_Pop (queue bq)")
    have "P (bq\<lparr> queue := q' \<rparr>)"
      by (rule 1 [OF _ p [symmetric] refl refl refl]) (use a p in \<open>simp_all add: skipped_def\<close>)
    then show "P (bq\<lparr> queue := snd (heap_Pop (queue bq)) \<rparr>)" using p by simp
  qed
qed


lemma heap_Pop_basic:
  assumes "h \<noteq> []"
  shows "fst (heap_Pop h) = h ! 0"
    and "add_mset (h ! 0) (mset (snd (heap_Pop h))) = mset h"
    and "length (snd (heap_Pop h)) = length h - 1"
proof -
  define n where "n = length h - 1"
  define h1 where "h1 = Swap h 0 n"
  define h2 where "h2 = fst (down h1 0 n)"
  have n: "n < length h" "length h = Suc n" using assms by (auto simp: n_def)
  have pop: "heap_Pop h = (last h2, butlast h2)"
    by (simp add: heap_Pop_def Let_def h2_def h1_def n_def)
  have len: "length h2 = Suc n" "length h1 = Suc n" using n by (simp_all add: h2_def h1_def)
  have "h1 ! n = h ! 0" unfolding h1_def using n by (simp add: nth_Swap)
  moreover have "h2 ! n = h1 ! n" unfolding h2_def using len by (intro down_beyond) simp_all
  moreover have h2ne: "h2 \<noteq> []" using len by auto
  ultimately have last: "last h2 = h ! 0" using len by (simp add: last_conv_nth)
  show "fst (heap_Pop h) = h ! 0" using pop last by simp
  have m2: "mset h2 = mset h"
    unfolding h2_def h1_def using n mset_down [of n "Swap h 0 n" 0] by (simp add: mset_Swap)
  have "mset (butlast h2 @ [last h2]) = mset h2"
    by (simp only: append_butlast_last_id [OF h2ne])
  then have "add_mset (last h2) (mset (butlast h2)) = mset h2"
    by (simp only: mset_append mset.simps add_mset_add_single [symmetric])
  then have "add_mset (last h2) (mset (butlast h2)) = mset h" by (simp only: m2)
  then show "add_mset (h ! 0) (mset (snd (heap_Pop h))) = mset h"
    using pop last by simp
  show "length (snd (heap_Pop h)) = length h - 1"
    using pop len n by simp
qed

lemma set_heap_Pop:
  "h \<noteq> [] \<Longrightarrow> set h = insert (fst (heap_Pop h)) (set (snd (heap_Pop h)))"
proof -
  assume "h \<noteq> []"
  then have "set_mset (add_mset (fst (heap_Pop h)) (mset (snd (heap_Pop h)))) = set_mset (mset h)"
    using heap_Pop_basic(1,2) [of h] by simp
  then show ?thesis by simp
qed

lemma skipped_queue_upd [simp]: "skipped (bq\<lparr> queue := q \<rparr>) e = skipped bq e"
  by (simp add: skipped_def)


lemma GetNext_None:
  "snd (GetNext bq) = None \<Longrightarrow>
   (\<forall>e\<in>set (queue bq). skipped bq e) \<and> queue (fst (GetNext bq)) = []
   \<and> cancelFlags (fst (GetNext bq)) = cancelFlags bq
   \<and> nextChan (fst (GetNext bq)) = nextChan bq
   \<and> activeDownloads (fst (GetNext bq)) = activeDownloads bq"
proof (induction bq rule: GetNext_induct)
  case (step bq)
  show ?case
  proof (cases "queue bq = []")
    case True
    then show ?thesis by (simp add: GetNext_empty)
  next
    case False
    show ?thesis
    proof (cases "skipped bq (fst (heap_Pop (queue bq)))")
      case True
      have "snd (GetNext (bq\<lparr> queue := snd (heap_Pop (queue bq)) \<rparr>)) = None"
        using step.prems False True by (simp add: GetNext_skip)
      from step.IH [OF False True this] show ?thesis
        using False True set_heap_Pop [OF False] by (auto simp: GetNext_skip)
    next
      case F: False
      then show ?thesis using step.prems False by (simp add: GetNext_take)
    qed
  qed
qed

lemma GetNext_heap: "heap_ok (queue bq) \<Longrightarrow> heap_ok (queue (fst (GetNext bq)))"
proof (induction bq rule: GetNext_induct)
  case (step bq)
  show ?case
  proof (cases "queue bq = []")
    case True
    then show ?thesis using step.prems by (simp add: GetNext_empty)
  next
    case False
    have h: "heap_ok (snd (heap_Pop (queue bq)))"
      using heap_Pop_props(2) [OF step.prems False] .
    show ?thesis
    proof (cases "skipped bq (fst (heap_Pop (queue bq)))")
      case True
      then show ?thesis using step.IH [OF False True] h False by (simp add: GetNext_skip)
    next
      case F: False
      then show ?thesis using False h by (simp add: GetNext_take)
    qed
  qed
qed

lemma GetNext_Some:
  assumes "heap_ok (queue bq)" "snd (GetNext bq) = Some (k, ch)"
  shows "\<exists>e\<in>set (queue bq). BookID e = k \<and> \<not> skipped bq e
           \<and> (\<forall>e'\<in>set (queue bq). \<not> skipped bq e' \<longrightarrow> le e e')"
  using assms
proof (induction bq rule: GetNext_induct)
  case (step bq)
  show ?case
  proof (cases "queue bq = []")
    case True
    then show ?thesis using step.prems by (simp add: GetNext_empty)
  next
    case False
    define item where "item = fst (heap_Pop (queue bq))"
    define q' where "q' = snd (heap_Pop (queue bq))"
    have h: "heap_ok q'"
      unfolding q'_def using heap_Pop_props(2) [OF step.prems(1) False] .
    have st: "set (queue bq) = insert item (set q')"
      unfolding item_def q'_def by (rule set_heap_Pop [OF False])
    show ?thesis
    proof (cases "skipped bq item")
      case True
      have "snd (GetNext (bq\<lparr> queue := q' \<rparr>)) = Some (k, ch)"
        using step.prems(2) False True by (simp add: GetNext_skip item_def q'_def)
      with step.IH [OF False] True h
      have "\<exists>e\<in>set q'. BookID e = k \<and> \<not> skipped bq e
              \<and> (\<forall>e'\<in>set q'. \<not> skipped bq e' \<longrightarrow> le e e')"
        by (simp add: item_def q'_def)
      then show ?thesis using st True by auto
    next
      case F: False
      have k: "k = BookID item"
        using step.prems(2) False F by (simp add: GetNext_take item_def)
      have root: "item = queue bq ! 0"
        unfolding item_def using heap_Pop_basic(1) [OF False] .
      have "le item e'" if "e' \<in> set (queue bq)" for e'
      proof -
        from that have "\<exists>c<length (queue bq). queue bq ! c = e'"
          by (simp only: in_set_conv_nth)
        then obtain c where "c < length (queue bq)" "e' = queue bq ! c"
          by blast
        then show ?thesis using heap_ok_root [OF step.prems(1)] root by simp
      qed
      then show ?thesis using st k F by auto
    qed
  qed
qed



section \<open>Invariants of every run\<close>

lemma indexOf_Some: "indexOf k q = Some i \<Longrightarrow> i < length q \<and> BookID (q ! i) = k"
  by (induction q arbitrary: i) (auto split: if_splits)

lemma indexOf_None: "indexOf k q = None \<Longrightarrow> \<forall>e\<in>set q. BookID e \<noteq> k"
  by (induction q) (auto split: if_splits)

lemma heap_ok_Nil [simp]: "heap_ok []"
  by (simp add: heap_ok_def)

lemma heap_Init_Nil [simp]: "heap_Init [] = []"
  by (simp add: heap_Init_def)

lemma heap_ok_step: "heap_ok (queue bq) \<Longrightarrow> heap_ok (queue (step x bq))"
proof (cases x)
  case (OpAdd k b p a now)
  assume "heap_ok (queue bq)"
  then show ?thesis
    using OpAdd by (auto simp: Add_def heap_Push_heap split: option.splits)
next
  case OpGetNext
  assume "heap_ok (queue bq)"
  then show ?thesis using OpGetNext by (simp add: GetNext_heap)
next
  case (OpSetPriority k p)
  assume "heap_ok (queue bq)"
  then show ?thesis
    using OpSetPriority
    by (auto simp: SetPriority_def heap_Fix_heap dest: indexOf_Some split: option.splits)
next
  case (OpReorderQueue m)
  then show ?thesis by (simp add: ReorderQueue_def heap_Init_heap)
next
  case OpClearCompleted
  assume "heap_ok (queue bq)"
  then show ?thesis using OpClearCompleted by (simp add: ClearCompleted_def Let_def)
qed (simp_all add: SetStatusTimeout_def)

lemma heap_ok_run: "heap_ok (queue bq) \<Longrightarrow> heap_ok (queue (run ops bq))"
  unfolding run_def by (induction ops arbitrary: bq) (simp_all add: heap_ok_step)

lemma heap_ok_reachable: "heap_ok (queue (run ops (NewBookQueue timeout)))"
  by (rule heap_ok_run) (simp add: NewBookQueue_def)



















section \<open>The claims about the registry\<close>

text \<open>A descriptor with nothing but an id, for the concrete runs below.\<close>

definition book0 :: "string \<Rightarrow> BookInfo" where
  "book0 i = \<lparr> ID = i, Title = ''Book'', Format = None, Size = None, DownloadURLs = [],
               DownloadPath = None, Priority = 0, Progress = None \<rparr>"

text \<open>
  The order of dispatch. In every state the registry can reach, \<^verbatim>\<open>GetNext\<close> dispatches
  whenever the heap holds an entry whose id is not marked cancelled, and the entry it
  dispatches is such an entry and is minimal among them in the order (priority ascending,
  insertion time ascending): every other entry not marked cancelled has a higher priority
  value, or the same priority value and an insertion time that is not earlier. The
  entries it chooses from are not the queued ones only: an entry whose id has no status
  record, or a status other than queued and cancelled, is dispatched like a queued one.
\<close>

lemma GetNext_minimal_not_cancelled:
  "let bq = run ops (NewBookQueue timeout) in
     ((\<exists>e\<in>set (queue bq). fmlookup (status bq) (BookID e) \<noteq> Some StatusCancelled)
        \<longrightarrow> snd (GetNext bq) \<noteq> None)
     \<and> (\<forall>bookID ch. snd (GetNext bq) = Some (bookID, ch) \<longrightarrow>
          (\<exists>e\<in>set (queue bq). BookID e = bookID
             \<and> fmlookup (status bq) bookID \<noteq> Some StatusCancelled
             \<and> (\<forall>e'\<in>set (queue bq). fmlookup (status bq) (BookID e') \<noteq> Some StatusCancelled \<longrightarrow>
                   QueueItem.Priority e < QueueItem.Priority e'
                   \<or> (QueueItem.Priority e = QueueItem.Priority e' \<and> AddedTime e \<le> AddedTime e'))))"
proof -
  define bq where "bq = run ops (NewBookQueue timeout)"
  have h: "heap_ok (queue bq)" unfolding bq_def by (rule heap_ok_reachable)
  have le_iff: "le e e' = (QueueItem.Priority e < QueueItem.Priority e'
      \<or> (QueueItem.Priority e = QueueItem.Priority e' \<and> AddedTime e \<le> AddedTime e'))" for e e'
    by (auto simp: le_def Less_def)
  have 1: "snd (GetNext bq) \<noteq> None"
    if "\<exists>e\<in>set (queue bq). fmlookup (status bq) (BookID e) \<noteq> Some StatusCancelled"
  proof (rule ccontr)
    assume "\<not> snd (GetNext bq) \<noteq> None"
    then have n: "snd (GetNext bq) = None" by (cases "snd (GetNext bq)") auto
    from GetNext_None [OF n] that show False by (auto simp: skipped_def)
  qed
  have 2: "\<exists>e\<in>set (queue bq). BookID e = k
             \<and> fmlookup (status bq) k \<noteq> Some StatusCancelled
             \<and> (\<forall>e'\<in>set (queue bq). fmlookup (status bq) (BookID e') \<noteq> Some StatusCancelled \<longrightarrow>
                   QueueItem.Priority e < QueueItem.Priority e'
                   \<or> (QueueItem.Priority e = QueueItem.Priority e' \<and> AddedTime e \<le> AddedTime e'))"
    if "snd (GetNext bq) = Some (k, ch)" for k ch
    using GetNext_Some [OF h that] unfolding skipped_def le_iff by blast
  show ?thesis
    unfolding Let_def bq_def [symmetric] using 1 2 by blast
qed

text \<open>
  The run of the test \<^verbatim>\<open>TestBookQueuePriority\<close>: A with priority 10, B with 1, C with 5;
  B is dispatched.
\<close>

lemma GetNext_priority_test:
  "snd (GetNext (run [OpAdd ''A'' (book0 ''A'') 10 1 1, OpAdd ''B'' (book0 ''B'') 1 2 2,
                      OpAdd ''C'' (book0 ''C'') 5 3 3] (NewBookQueue 3600))) = Some (''B'', 0)
   \<and> (\<exists>e\<in>set (queue (run [OpAdd ''A'' (book0 ''A'') 10 1 1, OpAdd ''B'' (book0 ''B'') 1 2 2,
                      OpAdd ''C'' (book0 ''C'') 5 3 3] (NewBookQueue 3600))).
         BookID e = ''B'' \<and> QueueItem.Priority e = 1)"
proof -
  let ?bq = "run [OpAdd ''A'' (book0 ''A'') 10 1 1, OpAdd ''B'' (book0 ''B'') 1 2 2,
                  OpAdd ''C'' (book0 ''C'') 5 3 3] (NewBookQueue 3600)"
  have g: "snd (GetNext ?bq) = Some (''B'', 0)" by code_simp
  have q: "map BookID (queue ?bq) = [''B'', ''A'', ''C'']"
          "map QueueItem.Priority (queue ?bq) = [1, 10, 5]"
          "map (\<lambda>e. fmlookup (status ?bq) (BookID e)) (queue ?bq)
             = [Some StatusQueued, Some StatusQueued, Some StatusQueued]"
    by code_simp+
  from GetNext_minimal_not_cancelled [of "[OpAdd ''A'' (book0 ''A'') 10 1 1, OpAdd ''B'' (book0 ''B'') 1 2 2,
                  OpAdd ''C'' (book0 ''C'') 5 3 3]" 3600, unfolded Let_def, THEN conjunct2, rule_format, OF g]
  obtain e where e: "e \<in> set (queue ?bq)" "BookID e = ''B''"
    "\<forall>e'\<in>set (queue ?bq). fmlookup (status ?bq) (BookID e') \<noteq> Some StatusCancelled \<longrightarrow>
        QueueItem.Priority e < QueueItem.Priority e'
        \<or> (QueueItem.Priority e = QueueItem.Priority e' \<and> AddedTime e \<le> AddedTime e')"
    by blast
  obtain i where i: "i < length (queue ?bq)" "queue ?bq ! i = e"
    using e(1) by (meson in_set_conv_nth)
  have len: "length (queue ?bq) = 3" using q(1) by (metis length_map length_Cons list.size(3) numeral_3_eq_3)
  have "BookID (queue ?bq ! i) = map BookID (queue ?bq) ! i" using i by simp
  then have "i = 0" using i e(2) len q(1) by (auto simp: less_Suc_eq numeral_3_eq_3)
  then have "QueueItem.Priority e = map QueueItem.Priority (queue ?bq) ! 0" using i len by (metis nth_map zero_less_numeral)
  then have "QueueItem.Priority e = 1" using q(2) by simp
  then show ?thesis using g e by blast
qed

text \<open>
  Claim C5, on the code. The id a is added with priority 0 and cancelled while it is
  queued; \<^verbatim>\<open>ClearCompleted\<close> removes its record and leaves its entry in the heap; then b
  is added with priority 5. Now b is the only queued id, the heap holds the entry of a
  before the entry of b, and \<^verbatim>\<open>GetNext\<close> finds no status for a, so it does not skip the
  entry: it dispatches a, a cancelled request that is not queued, ahead of b. The next
  \<^verbatim>\<open>GetNext\<close> dispatches b.
\<close>

theorem stale_entry_dispatched_first:
  "fmlookup (status (run [OpAdd ''a'' (book0 ''a'') 0 1 1, OpCancelDownload ''a'' 2, OpClearCompleted,
                         OpAdd ''b'' (book0 ''b'') 5 3 3] (NewBookQueue 3600))) ''a'' = None
   \<and> fmlookup (status (run [OpAdd ''a'' (book0 ''a'') 0 1 1, OpCancelDownload ''a'' 2, OpClearCompleted,
                         OpAdd ''b'' (book0 ''b'') 5 3 3] (NewBookQueue 3600))) ''b'' = Some StatusQueued
   \<and> queue (run [OpAdd ''a'' (book0 ''a'') 0 1 1, OpCancelDownload ''a'' 2, OpClearCompleted,
                 OpAdd ''b'' (book0 ''b'') 5 3 3] (NewBookQueue 3600))
       = [\<lparr> BookID = ''a'', Priority = 0, AddedTime = 1 \<rparr>,
          \<lparr> BookID = ''b'', Priority = 5, AddedTime = 3 \<rparr>]
   \<and> snd (GetNext (run [OpAdd ''a'' (book0 ''a'') 0 1 1, OpCancelDownload ''a'' 2, OpClearCompleted,
                       OpAdd ''b'' (book0 ''b'') 5 3 3] (NewBookQueue 3600))) = Some (''a'', 0)
   \<and> snd (GetNext (run [OpAdd ''a'' (book0 ''a'') 0 1 1, OpCancelDownload ''a'' 2, OpClearCompleted,
                       OpAdd ''b'' (book0 ''b'') 5 3 3, OpGetNext] (NewBookQueue 3600))) = Some (''b'', 1)"
proof -
  have "fmlookup (status (run [OpAdd ''a'' (book0 ''a'') 0 1 1, OpCancelDownload ''a'' 2, OpClearCompleted,
                         OpAdd ''b'' (book0 ''b'') 5 3 3] (NewBookQueue 3600))) ''a'' = None"
    by code_simp
  moreover have "fmlookup (status (run [OpAdd ''a'' (book0 ''a'') 0 1 1, OpCancelDownload ''a'' 2,
                         OpClearCompleted, OpAdd ''b'' (book0 ''b'') 5 3 3] (NewBookQueue 3600))) ''b''
                   = Some StatusQueued"
    by code_simp
  moreover have "queue (run [OpAdd ''a'' (book0 ''a'') 0 1 1, OpCancelDownload ''a'' 2, OpClearCompleted,
                 OpAdd ''b'' (book0 ''b'') 5 3 3] (NewBookQueue 3600))
       = [\<lparr> BookID = ''a'', Priority = 0, AddedTime = 1 \<rparr>,
          \<lparr> BookID = ''b'', Priority = 5, AddedTime = 3 \<rparr>]"
    by code_simp
  moreover have "snd (GetNext (run [OpAdd ''a'' (book0 ''a'') 0 1 1, OpCancelDownload ''a'' 2,
                       OpClearCompleted, OpAdd ''b'' (book0 ''b'') 5 3 3] (NewBookQueue 3600)))
                   = Some (''a'', 0)"
    by code_simp
  moreover have "snd (GetNext (run [OpAdd ''a'' (book0 ''a'') 0 1 1, OpCancelDownload ''a'' 2,
                       OpClearCompleted, OpAdd ''b'' (book0 ''b'') 5 3 3, OpGetNext] (NewBookQueue 3600)))
                   = Some (''b'', 1)"
    by code_simp
  ultimately show ?thesis by blast
qed

text \<open>
  Claim C10. \<^verbatim>\<open>ReorderQueue\<close> returns true for every argument; the heap afterwards holds
  exactly the entries it held before, each with the priority the argument gives its id
  and otherwise unchanged (an entry whose id is no key of the argument is the same entry,
  and no entry changes its id or its insertion time); and the heap is in min-heap order:
  no entry comes before its parent.
\<close>

theorem ReorderQueue_reprioritises:
  "snd (ReorderQueue bookPriorities bq) = True
   \<and> mset (queue (fst (ReorderQueue bookPriorities bq))) =
       image_mset (\<lambda>item. case fmlookup bookPriorities (BookID item) of
                            Some newPriority \<Rightarrow> item\<lparr> Priority := newPriority \<rparr>
                          | None \<Rightarrow> item)
         (mset (queue bq))
   \<and> length (queue (fst (ReorderQueue bookPriorities bq))) = length (queue bq)
   \<and> heap_ok (queue (fst (ReorderQueue bookPriorities bq)))"
proof -
  have "reorderItem bookPriorities =
          (\<lambda>item. case fmlookup bookPriorities (BookID item) of
                     Some newPriority \<Rightarrow> item\<lparr> Priority := newPriority \<rparr>
                   | None \<Rightarrow> item)"
    by (rule ext) (simp add: reorderItem_def)
  then show ?thesis
    by (simp add: ReorderQueue_def mset_heap_Init heap_Init_heap length_heap_Init)
qed

text \<open>
  The run of the test \<^verbatim>\<open>TestBookQueueReorderQueue\<close>: test-1 with priority 10 and test-2
  with 20 are given 5 and 1; test-2 is at the root afterwards, below it test-1.
\<close>

theorem ReorderQueue_reprioritises_witness:
  "heap_ok (queue (fst (ReorderQueue (fmupd ''test-1'' 5 (fmupd ''test-2'' 1 fmempty))
      (run [OpAdd ''test-1'' (book0 ''test-1'') 10 1 1, OpAdd ''test-2'' (book0 ''test-2'') 20 2 2]
         (NewBookQueue 3600)))))
   \<and> queue (fst (ReorderQueue (fmupd ''test-1'' 5 (fmupd ''test-2'' 1 fmempty))
      (run [OpAdd ''test-1'' (book0 ''test-1'') 10 1 1, OpAdd ''test-2'' (book0 ''test-2'') 20 2 2]
         (NewBookQueue 3600))))
      = [\<lparr> BookID = ''test-2'', Priority = 1, AddedTime = 2 \<rparr>,
         \<lparr> BookID = ''test-1'', Priority = 5, AddedTime = 1 \<rparr>]
   \<and> \<not> Less \<lparr> BookID = ''test-1'', Priority = 5, AddedTime = 1 \<rparr>
             \<lparr> BookID = ''test-2'', Priority = 1, AddedTime = 2 \<rparr>"
proof -
  let ?bq = "run [OpAdd ''test-1'' (book0 ''test-1'') 10 1 1, OpAdd ''test-2'' (book0 ''test-2'') 20 2 2]
         (NewBookQueue 3600)"
  let ?m = "fmupd ''test-1'' 5 (fmupd ''test-2'' 1 fmempty)"
  have q: "queue (fst (ReorderQueue ?m ?bq))
      = [\<lparr> BookID = ''test-2'', Priority = 1, AddedTime = 2 \<rparr>,
         \<lparr> BookID = ''test-1'', Priority = 5, AddedTime = 1 \<rparr>]"
    by code_simp
  have h: "heap_ok (queue (fst (ReorderQueue ?m ?bq)))"
    using ReorderQueue_reprioritises [of ?m ?bq] by simp
  have "\<not> Less (queue (fst (ReorderQueue ?m ?bq)) ! 1) (queue (fst (ReorderQueue ?m ?bq)) ! ((1 - 1) div 2))"
    using h [unfolded heap_ok_def, rule_format, of 1] q by simp
  then show ?thesis using q h by simp
qed


text \<open>
  Claim C3, as amended. For an id that has a record: when its status is error, done or
  cancelled, \<^verbatim>\<open>Add\<close> replaces the record (status queued with the new timestamp, the new
  descriptor with the priority written into it, one more heap entry for the id, the heap
  still in order, every other id's record untouched); when its status is queued,
  downloading or available, \<^verbatim>\<open>Add\<close> changes nothing at all.
\<close>

theorem Add_existing_record:
  assumes "fmlookup (status bq) bookID = Some st"
  shows "(st = StatusError \<or> st = StatusDone \<or> st = StatusCancelled \<longrightarrow>
            fmlookup (status (Add bookID book priority added now bq)) bookID = Some StatusQueued
          \<and> fmlookup (statusTimestamps (Add bookID book priority added now bq)) bookID = Some now
          \<and> fmlookup (bookData (Add bookID book priority added now bq)) bookID
                = Some (book\<lparr> BookInfo.Priority := priority \<rparr>)
          \<and> mset (queue (Add bookID book priority added now bq))
                = add_mset \<lparr> BookID = bookID, Priority = priority, AddedTime = added \<rparr> (mset (queue bq))
          \<and> (heap_ok (queue bq) \<longrightarrow> heap_ok (queue (Add bookID book priority added now bq)))
          \<and> (\<forall>k. k \<noteq> bookID \<longrightarrow>
                 fmlookup (status (Add bookID book priority added now bq)) k = fmlookup (status bq) k
               \<and> fmlookup (bookData (Add bookID book priority added now bq)) k = fmlookup (bookData bq) k))
       \<and> (st = StatusQueued \<or> st = StatusDownloading \<or> st = StatusAvailable \<longrightarrow>
            Add bookID book priority added now bq = bq)"
  using assms by (auto simp: Add_def mset_heap_Push heap_Push_heap)

text \<open>
  A cancelled id is added again and is queued with the new descriptor, the heap still in
  order; an id that is queued is added again and nothing changes.
\<close>

theorem Add_existing_record_witness:
  "fmlookup (status (fst (CancelDownload ''a'' 2 (Add ''a'' (book0 ''a'') 0 1 1 (NewBookQueue 3600))))) ''a''
     = Some StatusCancelled
   \<and> fmlookup (status (Add ''a'' (book0 ''b'') 7 3 3
        (fst (CancelDownload ''a'' 2 (Add ''a'' (book0 ''a'') 0 1 1 (NewBookQueue 3600)))))) ''a''
     = Some StatusQueued
   \<and> fmlookup (bookData (Add ''a'' (book0 ''b'') 7 3 3
        (fst (CancelDownload ''a'' 2 (Add ''a'' (book0 ''a'') 0 1 1 (NewBookQueue 3600)))))) ''a''
     = Some ((book0 ''b'')\<lparr> BookInfo.Priority := 7 \<rparr>)
   \<and> fmlookup (status (Add ''a'' (book0 ''a'') 0 1 1 (NewBookQueue 3600))) ''a'' = Some StatusQueued
   \<and> Add ''a'' (book0 ''b'') 7 3 3 (Add ''a'' (book0 ''a'') 0 1 1 (NewBookQueue 3600))
     = Add ''a'' (book0 ''a'') 0 1 1 (NewBookQueue 3600)
   \<and> heap_ok (queue (Add ''a'' (book0 ''b'') 7 3 3
        (fst (CancelDownload ''a'' 2 (Add ''a'' (book0 ''a'') 0 1 1 (NewBookQueue 3600))))))"
proof -
  let ?bq1 = "Add ''a'' (book0 ''a'') 0 1 1 (NewBookQueue 3600)"
  let ?bq2 = "fst (CancelDownload ''a'' 2 ?bq1)"
  have 1: "fmlookup (status ?bq1) ''a'' = Some StatusQueued"
    by (simp add: Add_def NewBookQueue_def)
  have 2: "fmlookup (status ?bq2) ''a'' = Some StatusCancelled"
    using 1 by (simp add: CancelDownload_def)
  have 3: "heap_ok (queue ?bq2)"
    using heap_ok_reachable [of "[OpAdd ''a'' (book0 ''a'') 0 1 1, OpCancelDownload ''a'' 2]" 3600]
    by (simp add: run_def)
  show ?thesis
    using Add_existing_record [OF 2, of "book0 ''b''" 7 3 3]
      Add_existing_record [OF 1, of "book0 ''b''" 7 3 3] 1 2 3
    by simp
qed

text \<open>
  Against C3 as it is written (with available among the terminal states, as the
  condition in \<^verbatim>\<open>UpdateStatus\<close> has it): the record of an available id is not replaced.
\<close>

theorem Add_available_counterexample:
  "isTerminal StatusAvailable
   \<and> fmlookup (status (UpdateStatus ''a'' StatusAvailable 2
         (Add ''a'' (book0 ''a'') 0 1 1 (NewBookQueue 3600)))) ''a'' = Some StatusAvailable
   \<and> fmlookup (status (Add ''a'' (book0 ''b'') 7 3 3 (UpdateStatus ''a'' StatusAvailable 2
         (Add ''a'' (book0 ''a'') 0 1 1 (NewBookQueue 3600))))) ''a'' = Some StatusAvailable
   \<and> fmlookup (bookData (Add ''a'' (book0 ''b'') 7 3 3 (UpdateStatus ''a'' StatusAvailable 2
         (Add ''a'' (book0 ''a'') 0 1 1 (NewBookQueue 3600))))) ''a'' = Some (book0 ''a'')"
  by (simp add: isTerminal_def Add_def NewBookQueue_def book0_def)


lemma statusKeys_set: "set (statusKeys bq) = {k. fmlookup (status bq) k \<noteq> None}"
  by (auto simp: statusKeys_def fmlookup_dom_iff)

lemma statusKeys_distinct: "distinct (statusKeys bq)"
  by (simp add: statusKeys_def sorted_list_of_fset.rep_eq)

text \<open>
  Claim C6, as amended. \<^verbatim>\<open>ClearCompleted\<close> removes exactly the records whose status is
  done, error or cancelled (status and descriptor; every other record stays as it was) and
  returns how many they were; afterwards no record has status done, error or cancelled.
  Records in available, the fourth terminal status, are kept.
\<close>

theorem ClearCompleted_removes:
  "(\<forall>k. fmlookup (status (fst (ClearCompleted bq))) k =
          (case fmlookup (status bq) k of
             Some st \<Rightarrow> if st = StatusDone \<or> st = StatusError \<or> st = StatusCancelled then None else Some st
           | None \<Rightarrow> None))
   \<and> (\<forall>k. fmlookup (bookData (fst (ClearCompleted bq))) k =
          (case fmlookup (status bq) k of
             Some st \<Rightarrow> if st = StatusDone \<or> st = StatusError \<or> st = StatusCancelled then None
                        else fmlookup (bookData bq) k
           | None \<Rightarrow> fmlookup (bookData bq) k))
   \<and> snd (ClearCompleted bq) =
       card {k. \<exists>st. fmlookup (status bq) k = Some st
                  \<and> (st = StatusDone \<or> st = StatusError \<or> st = StatusCancelled)}
   \<and> (\<forall>k st. fmlookup (status (fst (ClearCompleted bq))) k = Some st \<longrightarrow>
          st \<noteq> StatusDone \<and> st \<noteq> StatusError \<and> st \<noteq> StatusCancelled)
   \<and> (\<forall>k. fmlookup (status bq) k = Some StatusAvailable \<longrightarrow>
          fmlookup (status (fst (ClearCompleted bq))) k = Some StatusAvailable)"
proof -
  define toRemove where
    "toRemove = filter (\<lambda>bookID. case fmlookup (status bq) bookID of
                                   Some st \<Rightarrow> isCompleted st | None \<Rightarrow> False) (statusKeys bq)"
  have cc: "ClearCompleted bq = (fold removeCompleted toRemove bq, length toRemove)"
    by (simp add: ClearCompleted_def toRemove_def Let_def)
  have st: "set toRemove = {k. \<exists>st. fmlookup (status bq) k = Some st
                  \<and> (st = StatusDone \<or> st = StatusError \<or> st = StatusCancelled)}"
    unfolding toRemove_def by (auto simp: statusKeys_set isCompleted_def split: option.splits)
  have "distinct toRemove" unfolding toRemove_def using statusKeys_distinct by simp
  then have n: "length toRemove = card (set toRemove)" by (simp add: distinct_card)
  have 1: "fmlookup (status (fst (ClearCompleted bq))) k =
          (case fmlookup (status bq) k of
             Some st \<Rightarrow> if st = StatusDone \<or> st = StatusError \<or> st = StatusCancelled then None else Some st
           | None \<Rightarrow> None)" for k
    unfolding cc fst_conv fold_removeCompleted_status st by (auto split: option.splits)
  have 2: "fmlookup (bookData (fst (ClearCompleted bq))) k =
          (case fmlookup (status bq) k of
             Some st \<Rightarrow> if st = StatusDone \<or> st = StatusError \<or> st = StatusCancelled then None
                        else fmlookup (bookData bq) k
           | None \<Rightarrow> fmlookup (bookData bq) k)" for k
    unfolding cc fst_conv fold_removeCompleted_bookData st by (auto split: option.splits)
  have 3: "snd (ClearCompleted bq) =
       card {k. \<exists>st. fmlookup (status bq) k = Some st
                  \<and> (st = StatusDone \<or> st = StatusError \<or> st = StatusCancelled)}"
    unfolding cc snd_conv n st ..
  have 4: "st \<noteq> StatusDone \<and> st \<noteq> StatusError \<and> st \<noteq> StatusCancelled"
    if "fmlookup (status (fst (ClearCompleted bq))) k = Some st" for k st
    using that unfolding 1 by (auto split: option.splits if_splits)
  have 5: "fmlookup (status (fst (ClearCompleted bq))) k = Some StatusAvailable"
    if "fmlookup (status bq) k = Some StatusAvailable" for k
    using that unfolding 1 by simp
  show ?thesis using 1 2 3 4 5 by blast
qed

text \<open>
  The run of the test \<^verbatim>\<open>TestBookQueueClearCompleted\<close>: of three records one is done, one
  in error and one queued; two are removed and the queued one is left.
\<close>

theorem ClearCompleted_removes_witness:
  "snd (ClearCompleted (run [OpAdd ''test-1'' (book0 ''test-1'') 0 1 1,
          OpAdd ''test-2'' (book0 ''test-2'') 0 2 2, OpAdd ''test-3'' (book0 ''test-3'') 0 3 3,
          OpUpdateStatus ''test-1'' StatusDone 4, OpUpdateStatus ''test-2'' StatusError 5,
          OpUpdateStatus ''test-3'' StatusQueued 6] (NewBookQueue 3600))) = 2
   \<and> card {k. \<exists>st. fmlookup (status (run [OpAdd ''test-1'' (book0 ''test-1'') 0 1 1,
          OpAdd ''test-2'' (book0 ''test-2'') 0 2 2, OpAdd ''test-3'' (book0 ''test-3'') 0 3 3,
          OpUpdateStatus ''test-1'' StatusDone 4, OpUpdateStatus ''test-2'' StatusError 5,
          OpUpdateStatus ''test-3'' StatusQueued 6] (NewBookQueue 3600))) k = Some st
                  \<and> (st = StatusDone \<or> st = StatusError \<or> st = StatusCancelled)} = 2
   \<and> fmlookup (status (fst (ClearCompleted (run [OpAdd ''test-1'' (book0 ''test-1'') 0 1 1,
          OpAdd ''test-2'' (book0 ''test-2'') 0 2 2, OpAdd ''test-3'' (book0 ''test-3'') 0 3 3,
          OpUpdateStatus ''test-1'' StatusDone 4, OpUpdateStatus ''test-2'' StatusError 5,
          OpUpdateStatus ''test-3'' StatusQueued 6] (NewBookQueue 3600))))) ''test-1'' = None
   \<and> fmlookup (status (fst (ClearCompleted (run [OpAdd ''test-1'' (book0 ''test-1'') 0 1 1,
          OpAdd ''test-2'' (book0 ''test-2'') 0 2 2, OpAdd ''test-3'' (book0 ''test-3'') 0 3 3,
          OpUpdateStatus ''test-1'' StatusDone 4, OpUpdateStatus ''test-2'' StatusError 5,
          OpUpdateStatus ''test-3'' StatusQueued 6] (NewBookQueue 3600))))) ''test-3'' = Some StatusQueued"
proof -
  let ?bq = "run [OpAdd ''test-1'' (book0 ''test-1'') 0 1 1,
          OpAdd ''test-2'' (book0 ''test-2'') 0 2 2, OpAdd ''test-3'' (book0 ''test-3'') 0 3 3,
          OpUpdateStatus ''test-1'' StatusDone 4, OpUpdateStatus ''test-2'' StatusError 5,
          OpUpdateStatus ''test-3'' StatusQueued 6] (NewBookQueue 3600)"
  have n: "snd (ClearCompleted ?bq) = 2" by code_simp
  have s1: "fmlookup (status ?bq) ''test-1'' = Some StatusDone"
    and s3: "fmlookup (status ?bq) ''test-3'' = Some StatusQueued"
    by code_simp+
  from ClearCompleted_removes [of ?bq] n s1 s3 show ?thesis by simp
qed

text \<open>
  Against C6 as it is written: available is a terminal status (it is one of the four
  that \<^verbatim>\<open>UpdateStatus\<close> treats as terminal), and a record in available is still there
  afterwards.
\<close>

theorem ClearCompleted_available_counterexample:
  "isTerminal StatusAvailable
   \<and> snd (ClearCompleted (UpdateStatus ''a'' StatusAvailable 2
           (Add ''a'' (book0 ''a'') 0 1 1 (NewBookQueue 3600)))) = 0
   \<and> fmlookup (status (fst (ClearCompleted (UpdateStatus ''a'' StatusAvailable 2
           (Add ''a'' (book0 ''a'') 0 1 1 (NewBookQueue 3600)))))) ''a'' = Some StatusAvailable"
proof -
  have "isTerminal StatusAvailable" by (simp add: isTerminal_def)
  moreover have "snd (ClearCompleted (UpdateStatus ''a'' StatusAvailable 2
           (Add ''a'' (book0 ''a'') 0 1 1 (NewBookQueue 3600)))) = 0"
    by code_simp
  moreover have "fmlookup (status (fst (ClearCompleted (UpdateStatus ''a'' StatusAvailable 2
           (Add ''a'' (book0 ''a'') 0 1 1 (NewBookQueue 3600)))))) ''a'' = Some StatusAvailable"
    by code_simp
  ultimately show ?thesis by blast
qed




text \<open>
  Claim C1, on the code. A queued id is cancelled (\<^verbatim>\<open>CancelDownload\<close> returns true), then
  \<^verbatim>\<open>ClearCompleted\<close> removes its record but not its heap entry; the next \<^verbatim>\<open>GetNext\<close>
  finds no status for the entry, dispatches it, and the worker's first call
  (\<^verbatim>\<open>UpdateStatus\<close> with downloading, in \<^verbatim>\<open>processDownload\<close>) makes the id downloading.
\<close>

theorem cancelled_id_dispatched_after_clear:
  "fmlookup (status (run [OpAdd ''a'' (book0 ''a'') 0 1 1] (NewBookQueue 3600))) ''a'' = Some StatusQueued
   \<and> snd (CancelDownload ''a'' 2 (run [OpAdd ''a'' (book0 ''a'') 0 1 1] (NewBookQueue 3600))) = True
   \<and> snd (ClearCompleted (run [OpAdd ''a'' (book0 ''a'') 0 1 1, OpCancelDownload ''a'' 2]
                             (NewBookQueue 3600))) = 1
   \<and> snd (GetNext (run [OpAdd ''a'' (book0 ''a'') 0 1 1, OpCancelDownload ''a'' 2, OpClearCompleted]
                      (NewBookQueue 3600))) = Some (''a'', 0)
   \<and> fmlookup (status (run [OpAdd ''a'' (book0 ''a'') 0 1 1, OpCancelDownload ''a'' 2, OpClearCompleted,
                            OpGetNext, OpUpdateStatus ''a'' StatusDownloading 3]
                         (NewBookQueue 3600))) ''a'' = Some StatusDownloading"
proof -
  have "fmlookup (status (run [OpAdd ''a'' (book0 ''a'') 0 1 1] (NewBookQueue 3600))) ''a'' = Some StatusQueued"
    by code_simp
  moreover have "snd (CancelDownload ''a'' 2 (run [OpAdd ''a'' (book0 ''a'') 0 1 1] (NewBookQueue 3600))) = True"
    by code_simp
  moreover have "snd (ClearCompleted (run [OpAdd ''a'' (book0 ''a'') 0 1 1, OpCancelDownload ''a'' 2]
                             (NewBookQueue 3600))) = 1"
    by code_simp
  moreover have "snd (GetNext (run [OpAdd ''a'' (book0 ''a'') 0 1 1, OpCancelDownload ''a'' 2, OpClearCompleted]
                      (NewBookQueue 3600))) = Some (''a'', 0)"
    by code_simp
  moreover have "fmlookup (status (run [OpAdd ''a'' (book0 ''a'') 0 1 1, OpCancelDownload ''a'' 2, OpClearCompleted,
                            OpGetNext, OpUpdateStatus ''a'' StatusDownloading 3]
                         (NewBookQueue 3600))) ''a'' = Some StatusDownloading"
    by code_simp
  ultimately show ?thesis by blast
qed

section \<open>The downloader (internal/downloader)\<close>

text \<open>
  The file downloader.go holds three texts of the package, one after the other: the first
  (lines 1 to 347) with \<^verbatim>\<open>parseSizeString\<close> and the methods \<^verbatim>\<open>DownloadURL\<close> and
  \<^verbatim>\<open>DownloadBook\<close>, the second (lines 348 to 586) with the functions that fetch pages
  into memory, and the third (lines 587 to 1100) with both, where the size parser is
  \<^verbatim>\<open>parseSizeStringInt64\<close>. The claims cite the first and the third; their functions are
  modelled side by side, with 1 or 3 after the name where the name is the same.
\<close>

subsection \<open>The Go library functions the downloader calls\<close>

text \<open>
  Strings are byte strings. Of the library the model covers what ASCII input needs:
  \<^verbatim>\<open>strings.TrimSpace\<close> with the six ASCII blanks, \<^verbatim>\<open>strings.ToUpper\<close> on the letters a to
  z, and \<^verbatim>\<open>strconv.ParseFloat\<close> on decimal literals (sign, digits, point, digits, decimal
  exponent); hexadecimal literals, digits separated by underscores, infinities and NaN
  are refused by the model. A \<^verbatim>\<open>float64\<close> is modelled by the real number it stands for;
  for sizes written with up to fifteen digits this gives the number of bytes the code
  computes. \<^verbatim>\<open>strconv.ParseFloat\<close> fails with a range error when the literal is too large
  for a \<^verbatim>\<open>float64\<close>, that is when it would be rounded to infinity.
  \<^verbatim>\<open>int64(x)\<close> cuts the fraction off. When the result does not fit in 64 bits Go leaves
  the value of the conversion to the implementation: the model gives what amd64 gives,
  the smallest \<^verbatim>\<open>int64\<close> (arm64 gives the nearest \<^verbatim>\<open>int64\<close> instead).
\<close>

definition isSpace :: "char \<Rightarrow> bool" where
  "isSpace c = (c = CHR '' '' \<or> (9 \<le> (of_char c :: nat) \<and> (of_char c :: nat) \<le> 13))"

definition TrimSpace :: "string \<Rightarrow> string" where
  "TrimSpace s = rev (dropWhile isSpace (rev (dropWhile isSpace s)))"

definition upperChar :: "char \<Rightarrow> char" where
  "upperChar c =
     (if 97 \<le> (of_char c :: nat) \<and> (of_char c :: nat) \<le> 122
      then char_of ((of_char c :: nat) - 32) else c)"

definition ToUpper :: "string \<Rightarrow> string" where
  "ToUpper s = map upperChar s"

definition HasPrefix :: "string \<Rightarrow> string \<Rightarrow> bool" where
  "HasPrefix s pre = (take (length pre) s = pre)"

definition HasSuffix :: "string \<Rightarrow> string \<Rightarrow> bool" where
  "HasSuffix s suf = (length suf \<le> length s \<and> drop (length s - length suf) s = suf)"

definition TrimSuffix :: "string \<Rightarrow> string \<Rightarrow> string" where
  "TrimSuffix s suf = (if HasSuffix s suf then take (length s - length suf) s else s)"

definition isDigit :: "char \<Rightarrow> bool" where
  "isDigit c = (48 \<le> (of_char c :: nat) \<and> (of_char c :: nat) \<le> 57)"

definition digitsValue :: "string \<Rightarrow> int" where
  "digitsValue ds = foldl (\<lambda>acc c. 10 * acc + ((of_char c :: int) - 48)) 0 ds"

definition isSign :: "char \<Rightarrow> bool" where
  "isSign c = (c = CHR ''+'' \<or> c = CHR ''-'')"

text \<open>
  strconv.ParseFloat on decimal literals: sign, digits, point, digits, exponent. A
  literal of this size or more is rounded to infinity and gives a range error: the
  middle between the largest \<^verbatim>\<open>float64\<close>, \<open>2 ^ 1024 - 2 ^ 971\<close>, and \<open>2 ^ 1024\<close>.
\<close>

definition float64Limit :: real where
  "float64Limit = 2 ^ 1024 - 2 ^ 970"

lemma float64Limit_code [code]:
  "float64Limit = 179769313486231580793728971405303415079934132710037826936173778980444968292764750946649017977587207096330286416692887910946555547851940402630657488671505820681908902000708383676273854845817711531764475730270069855571366959622842914819860834936475292719074168444365510704342711559699508093042880177904174497792"
  by (simp add: float64Limit_def)

definition parseExponent :: "string \<Rightarrow> int option" where
  "parseExponent s =
     (case s of
        [] \<Rightarrow> Some 0
      | c # rest \<Rightarrow>
          if c = CHR ''e'' \<or> c = CHR ''E'' then
            (let (neg, ds) = (case rest of
                                [] \<Rightarrow> (False, [])
                              | d # ds' \<Rightarrow> if isSign d then (d = CHR ''-'', ds') else (False, rest))
             in if ds \<noteq> [] \<and> list_all isDigit ds
                then Some (if neg then - digitsValue ds else digitsValue ds)
                else None)
          else None)"

definition ParseFloat :: "string \<Rightarrow> real option" where
  "ParseFloat s =
     (let (neg, s1) = (case s of
                         [] \<Rightarrow> (False, [])
                       | c # rest \<Rightarrow> if isSign c then (c = CHR ''-'', rest) else (False, s));
          ip = takeWhile isDigit s1;
          s2 = dropWhile isDigit s1;
          (fp, s3) = (case s2 of
                        [] \<Rightarrow> ([], [])
                      | c # rest \<Rightarrow>
                          if c = CHR ''.'' then (takeWhile isDigit rest, dropWhile isDigit rest)
                          else ([], s2))
      in if ip = [] \<and> fp = [] then None
         else
           case parseExponent s3 of
             None \<Rightarrow> None
           | Some e \<Rightarrow>
               let m = real_of_int (digitsValue ip) + real_of_int (digitsValue fp) / 10 ^ length fp;
                   v = (if e \<ge> 0 then m * 10 ^ nat e else m / 10 ^ nat (- e))
               in if v \<ge> float64Limit then None
                  else Some (if neg then - v else v))"

definition toInt64 :: "real \<Rightarrow> int" where
  "toInt64 x =
     (let t = (if x \<ge> 0 then \<lfloor>x\<rfloor> else \<lceil>x\<rceil>)
      in if - (2 ^ 63) \<le> t \<and> t < 2 ^ 63 then t else - (2 ^ 63))"


text \<open>\<^verbatim>\<open>strings.ReplaceAll\<close> for a pattern that is not empty.\<close>

fun ReplaceAll :: "string \<Rightarrow> string \<Rightarrow> string \<Rightarrow> string" where
  "ReplaceAll [] old new = []"
| "ReplaceAll (c # cs) old new =
     (if old \<noteq> [] \<and> take (length old) (c # cs) = old
      then new @ ReplaceAll (drop (length old - 1) cs) old new
      else c # ReplaceAll cs old new)"

text \<open>
  \<^verbatim>\<open>fmt.Sscanf(size, "%f %s", &value, &unit)\<close>. The verb \<^verbatim>\<open>%f\<close> skips blanks (a newline is
  an error), takes the longest prefix that looks like a number and hands it to the
  conversion; the space of the format needs at least one blank or the end of the input;
  \<^verbatim>\<open>%s\<close> skips blanks and takes what follows up to the next blank, and fails at the end
  of the input. What is left of the input is ignored.
\<close>

fun skipBlank :: "string \<Rightarrow> string option" where
  "skipBlank [] = Some []"
| "skipBlank (c # cs) =
     (if c = CHR 0x0A then None else if isSpace c then skipBlank cs else Some (c # cs))"

definition floatToken :: "string \<Rightarrow> string \<times> string" where
  "floatToken s =
     (let isD = (\<lambda>c. isDigit c \<or> c = CHR ''_'');
          (sg, s1) = (case s of
                        [] \<Rightarrow> ([], [])
                      | c # r \<Rightarrow> if isSign c then ([c], r) else ([], s));
          ip = takeWhile isD s1;
          s2 = dropWhile isD s1;
          (fp, s3) = (case s2 of
                        [] \<Rightarrow> ([], [])
                      | c # r \<Rightarrow>
                          if c = CHR ''.'' then (c # takeWhile isD r, dropWhile isD r)
                          else ([], s2));
          (ex, s4) = (case s3 of
                        [] \<Rightarrow> ([], [])
                      | c # r \<Rightarrow>
                          if c = CHR ''e'' \<or> c = CHR ''E'' \<or> c = CHR ''p'' \<or> c = CHR ''P'' then
                            (let (sg2, r2) = (case r of
                                                [] \<Rightarrow> ([], [])
                                              | d # r' \<Rightarrow> if isSign d then ([d], r') else ([], r))
                             in (c # sg2 @ takeWhile isD r2, dropWhile isD r2))
                          else ([], s3))
      in (sg @ ip @ fp @ ex, s4))"

definition Sscanf_f_s :: "string \<Rightarrow> (real \<times> string) option" where
  "Sscanf_f_s input =
     (case skipBlank input of
        None \<Rightarrow> None
      | Some s1 \<Rightarrow>
          if s1 = [] then None
          else
            let (tok, s2) = floatToken s1 in
            case ParseFloat tok of
              None \<Rightarrow> None
            | Some v \<Rightarrow>
                (case s2 of
                   [] \<Rightarrow> None
                 | c # r \<Rightarrow>
                     if \<not> isSpace c then None
                     else
                       case skipBlank s2 of
                         None \<Rightarrow> None
                       | Some s3 \<Rightarrow>
                           if s3 = [] then None
                           else Some (v, takeWhile (\<lambda>c. \<not> isSpace c) s3)))"

subsection \<open>Sizes and file names\<close>

text \<open>\<^verbatim>\<open>parseSizeString\<close> of the first text of downloader.go (lines 164 to 203).\<close>

definition parseSizeString :: "string \<Rightarrow> int" where
  "parseSizeString sz =
     (let s = ToUpper (ReplaceAll (ReplaceAll (TrimSpace sz) '','' ''.'') '' '' []);
          (unit, num) =
            (if HasSuffix s ''MB'' then (''MB'', TrimSuffix s ''MB'')
             else if HasSuffix s ''KB'' then (''KB'', TrimSuffix s ''KB'')
             else if HasSuffix s ''GB'' then (''GB'', TrimSuffix s ''GB'')
             else ([], s))
      in case ParseFloat num of
           None \<Rightarrow> 0
         | Some v \<Rightarrow>
             if unit = ''KB'' then toInt64 (v * 1024)
             else if unit = ''MB'' then toInt64 (v * 1024 * 1024)
             else if unit = ''GB'' then toInt64 (v * 1024 * 1024 * 1024)
             else toInt64 v)"

text \<open>\<^verbatim>\<open>parseSizeStringInt64\<close> of the third text (lines 905 to 930).\<close>

definition parseSizeStringInt64 :: "string \<Rightarrow> int" where
  "parseSizeStringInt64 sz =
     (let s = ReplaceAll (ToUpper (TrimSpace sz)) '','' ''.'' in
      case Sscanf_f_s s of
        None \<Rightarrow> 0
      | Some (v, unit) \<Rightarrow>
          if unit = ''KB'' then toInt64 (v * 1024)
          else if unit = ''MB'' then toInt64 (v * 1024 * 1024)
          else if unit = ''GB'' then toInt64 (v * 1024 * 1024 * 1024)
          else toInt64 v)"

definition allowedChar :: "char \<Rightarrow> bool" where
  "allowedChar c =
     ((97 \<le> (of_char c :: nat) \<and> (of_char c :: nat) \<le> 122)
      \<or> (65 \<le> (of_char c :: nat) \<and> (of_char c :: nat) \<le> 90)
      \<or> isDigit c \<or> c = CHR '' '' \<or> c = CHR ''.'' \<or> c = CHR ''_'' \<or> c = CHR ''-'')"

definition sanitizeFilename :: "string \<Rightarrow> string" where
  "sanitizeFilename filename = TrimSpace (filter allowedChar filename)"

subsection \<open>One attempt on one URL\<close>

text \<open>
  What the network and the file system do is the input of the model. A response is its
  status code, its declared length (-1 when unknown), its Content-Type header (empty
  when absent) and the script of the reads of its body: each turn of the loop first polls
  the context (\<open>ctxDone\<close>), then reads \<open>nRead\<close> bytes with the error \<open>readErr\<close>, writes
  them (\<open>writeFails\<close>) and in the first text reads the clock (\<open>clock\<close>, in nanoseconds).
  A body whose script is used up answers \<^verbatim>\<open>(0, io.EOF)\<close>.
\<close>

datatype readError = NoErr | EOF | ReadFailed

datatype bodyRead =
  BodyRead (ctxDone: bool) (nRead: nat) (writeFails: bool) (readErr: readError) (clock: int)

record Response =
  StatusCode :: int
  ContentLength :: int
  ContentType :: string
  Body :: "bodyRead list"

datatype fetchResult = NewRequestFails | DoFails bool | Responds Response

record attempt =
  fetched :: fetchResult
  createFails :: bool
  moveFails :: bool
  startClock :: int

datatype downloadError =
    ErrCreateRequest | ErrCancelled | ErrDownload | ErrBadStatus int | ErrCreateFile
  | ErrWrite | ErrRead | ErrHTML | ErrIncomplete int int | ErrMove

text \<open>
  \<^verbatim>\<open>float64\<close> values are modelled by the reals they stand for: a progress value is
  \<open>downloaded * 100 / totalSize\<close>, and nine tenths of the total is \<open>totalSize * 0.9\<close>.
  The result of an attempt is its error (\<open>None\<close> for \<^verbatim>\<open>nil\<close>) and the values the progress
  callback was called with, in order; \<open>cb\<close> says whether a callback was given.
\<close>

fun readLoop1 ::
  "bool \<Rightarrow> int \<Rightarrow> bodyRead list \<Rightarrow> int \<Rightarrow> int \<Rightarrow> real list \<Rightarrow> (downloadError + int) \<times> real list" where
  "readLoop1 cb totalSize [] downloaded lastProgress ps = (Inr downloaded, ps)"
| "readLoop1 cb totalSize (r # rs) downloaded lastProgress ps =
     (if ctxDone r then (Inl ErrCancelled, ps)
      else if nRead r > 0 \<and> writeFails r then (Inl ErrWrite, ps)
      else
        let downloaded' = downloaded + int (nRead r);
            report = (nRead r > 0 \<and> cb \<and> totalSize > 0 \<and> clock r - lastProgress \<ge> 1000000000);
            ps' = (if report then ps @ [real_of_int downloaded' * 100 / real_of_int totalSize] else ps);
            lastProgress' = (if report then clock r else lastProgress)
        in if readErr r = EOF then (Inr downloaded', ps')
           else if readErr r \<noteq> NoErr then (Inl ErrRead, ps')
           else readLoop1 cb totalSize rs downloaded' lastProgress' ps')"

text \<open>
  The expected size, in both texts: the declared size when it parses to something other
  than 0, else the length the response declares.
\<close>

definition expectedTotal :: "(string \<Rightarrow> int) \<Rightarrow> string \<Rightarrow> Response \<Rightarrow> int" where
  "expectedTotal parse sz resp =
     (let parsed = (if sz \<noteq> [] then parse sz else 0)
      in if parsed = 0 then ContentLength resp else parsed)"

text \<open>\<^verbatim>\<open>Downloader.DownloadURL\<close> of the first text (lines 62 to 162).\<close>

definition DownloadURL1 :: "attempt \<Rightarrow> string \<Rightarrow> bool \<Rightarrow> downloadError option \<times> real list" where
  "DownloadURL1 att sz cb =
     (case fetched att of
        NewRequestFails \<Rightarrow> (Some ErrCreateRequest, [])
      | DoFails cancelled \<Rightarrow> (Some (if cancelled then ErrCancelled else ErrDownload), [])
      | Responds resp \<Rightarrow>
          if StatusCode resp \<noteq> 200 then (Some (ErrBadStatus (StatusCode resp)), [])
          else
            let totalSize = expectedTotal parseSizeString sz resp
            in if createFails att then (Some ErrCreateFile, [])
               else
                 case readLoop1 cb totalSize (Body resp) 0 (startClock att) [] of
                   (Inl e, ps) \<Rightarrow> (Some e, ps)
                 | (Inr downloaded, ps) \<Rightarrow>
                     let ps' = (if cb \<and> totalSize > 0 then ps @ [100] else ps) in
                     if totalSize > 0 \<and> downloaded < toInt64 (real_of_int totalSize * 0.9)
                        \<and> ContentType resp \<noteq> [] \<and> HasPrefix (ContentType resp) ''text/html''
                     then (Some ErrHTML, ps')
                     else (None, ps'))"

fun readLoop3 ::
  "bool \<Rightarrow> int \<Rightarrow> bodyRead list \<Rightarrow> int \<Rightarrow> real list \<Rightarrow> (downloadError + int) \<times> real list" where
  "readLoop3 cb totalSize [] downloaded ps = (Inr downloaded, ps)"
| "readLoop3 cb totalSize (r # rs) downloaded ps =
     (if ctxDone r then (Inl ErrCancelled, ps)
      else if nRead r > 0 \<and> writeFails r then (Inl ErrWrite, ps)
      else
        let downloaded' = downloaded + int (nRead r);
            ps' = (if nRead r > 0 \<and> cb \<and> totalSize > 0
                   then ps @ [real_of_int downloaded' * 100 / real_of_int totalSize] else ps)
        in if readErr r = EOF then (Inr downloaded', ps')
           else if readErr r \<noteq> NoErr then (Inl ErrRead, ps')
           else readLoop3 cb totalSize rs downloaded' ps')"

text \<open>\<^verbatim>\<open>Downloader.DownloadURL\<close> of the third text (lines 737 to 836).\<close>

definition DownloadURL3 :: "attempt \<Rightarrow> string \<Rightarrow> bool \<Rightarrow> downloadError option \<times> real list" where
  "DownloadURL3 att sz cb =
     (case fetched att of
        NewRequestFails \<Rightarrow> (Some ErrCreateRequest, [])
      | DoFails cancelled \<Rightarrow> (Some (if cancelled then ErrCancelled else ErrDownload), [])
      | Responds resp \<Rightarrow>
          if StatusCode resp \<noteq> 200 then (Some (ErrBadStatus (StatusCode resp)), [])
          else
            let totalSize = expectedTotal parseSizeStringInt64 sz resp
            in if createFails att then (Some ErrCreateFile, [])
               else
                 case readLoop3 cb totalSize (Body resp) 0 [] of
                   (Inl e, ps) \<Rightarrow> (Some e, ps)
                 | (Inr downloaded, ps) \<Rightarrow>
                     if totalSize > 0 \<and> real_of_int downloaded < real_of_int totalSize * 0.9
                     then (Some (ErrIncomplete downloaded totalSize), ps)
                     else if moveFails att then (Some ErrMove, ps)
                     else (None, ps))"

subsection \<open>One book\<close>

text \<open>
  The configuration fields \<^verbatim>\<open>DownloadBook\<close> reads, and what the context and the file
  system answer at the places it asks them. \<open>fetch\<close> gives the attempt a URL leads to.
  \<^verbatim>\<open>filepath.Join\<close> is modelled without the cleaning of the path.
\<close>

record Config =
  UseBookTitle :: bool
  TmpDir :: string
  IngestDir :: string
  CustomScript :: string
  AADonatorKey :: string
  AABaseURL :: string

record world =
  fetch :: "string \<Rightarrow> attempt"
  ctxAtStart :: bool
  mkdirTmpFails :: bool
  ctxBeforeScript :: bool
  mkdirIngestFails :: bool
  moveIngestFails :: bool
  ctxBeforeRename :: bool
  renameFinalFails :: bool

datatype bookError =
    ErrNoURLs | ErrBookCancelled | ErrMkdirTmp | ErrAllFailed "downloadError option"
  | ErrMkdirIngest | ErrMoveIngest | ErrRenameFinal

definition Join :: "string \<Rightarrow> string \<Rightarrow> string" where
  "Join dir name = dir @ ''/'' @ name"

fun tryURLs1 ::
  "(string \<Rightarrow> attempt) \<Rightarrow> string list \<Rightarrow> string \<Rightarrow> bool \<Rightarrow> downloadError option
   \<Rightarrow> downloadError option \<times> real list" where
  "tryURLs1 f [] sz cb downloadErr = (downloadErr, [])"
| "tryURLs1 f (url # rest) sz cb downloadErr =
     (case DownloadURL1 (f url) sz cb of
        (None, ps) \<Rightarrow> (None, ps)
      | (Some e, ps) \<Rightarrow> (let (r, ps') = tryURLs1 f rest sz cb (Some e) in (r, ps @ ps')))"

text \<open>\<^verbatim>\<open>Downloader.DownloadBook\<close> of the first text (lines 206 to 329).\<close>

definition DownloadBook1 :: "Config \<Rightarrow> world \<Rightarrow> BookInfo \<Rightarrow> bool \<Rightarrow> (bookError + string) \<times> real list" where
  "DownloadBook1 cfg w book cb =
     (if ctxAtStart w then (Inl ErrBookCancelled, [])
      else
        let bookName0 = (if UseBookTitle cfg \<and> Title book \<noteq> [] then sanitizeFilename (Title book)
                         else ID book);
            format = (case Format book of
                        Some f \<Rightarrow> if f \<noteq> [] then f else ''epub''
                      | None \<Rightarrow> ''epub'');
            bookName = bookName0 @ ''.'' @ format
        in if mkdirTmpFails w then (Inl ErrMkdirTmp, [])
           else
             let sz = (case Size book of Some s \<Rightarrow> s | None \<Rightarrow> []);
                 (downloadErr, ps) = tryURLs1 (fetch w) (DownloadURLs book) sz cb None
             in if downloadErr \<noteq> None then (Inl (ErrAllFailed downloadErr), ps)
                else if ctxBeforeScript w then (Inl ErrBookCancelled, ps)
                else if mkdirIngestFails w then (Inl ErrMkdirIngest, ps)
                else if moveIngestFails w then (Inl ErrMoveIngest, ps)
                else if ctxBeforeRename w then (Inl ErrBookCancelled, ps)
                else if renameFinalFails w then (Inl ErrRenameFinal, ps)
                else (Inr (Join (IngestDir cfg) bookName), ps))"

fun tryURLs3 ::
  "(string \<Rightarrow> attempt) \<Rightarrow> bool \<Rightarrow> string \<Rightarrow> string list \<Rightarrow> string \<Rightarrow> bool \<Rightarrow> downloadError option
   \<Rightarrow> (bookError + string) \<times> real list" where
  "tryURLs3 f moveFailsIngest finalPath [] sz cb lastErr = (Inl (ErrAllFailed lastErr), [])"
| "tryURLs3 f moveFailsIngest finalPath (url # rest) sz cb lastErr =
     (case DownloadURL3 (f url) sz cb of
        (None, ps) \<Rightarrow> (if moveFailsIngest then (Inl ErrMoveIngest, ps) else (Inr finalPath, ps))
      | (Some e, ps) \<Rightarrow>
          (let (r, ps') = tryURLs3 f moveFailsIngest finalPath rest sz cb (Some e) in (r, ps @ ps')))"

text \<open>\<^verbatim>\<open>Downloader.DownloadBook\<close> of the third text (lines 1007 to 1082).\<close>

definition DownloadBook3 :: "Config \<Rightarrow> world \<Rightarrow> BookInfo \<Rightarrow> bool \<Rightarrow> (bookError + string) \<times> real list" where
  "DownloadBook3 cfg w book cb =
     (if DownloadURLs book = [] then (Inl ErrNoURLs, [])
      else
        let fastURL = AABaseURL cfg @ ''/dyn/api/fast_download.json?md5='' @ ID book
                        @ ''&key='' @ AADonatorKey cfg;
            urls = (if AADonatorKey cfg \<noteq> [] then [fastURL] else []) @ DownloadURLs book;
            filename0 = (if UseBookTitle cfg \<and> Title book \<noteq> [] then Title book else ID book);
            filename1 = (case Format book of
                           Some f \<Rightarrow> if f \<noteq> [] then filename0 @ ''.'' @ f else filename0
                         | None \<Rightarrow> filename0);
            filename = sanitizeFilename filename1;
            sz = (case Size book of Some s \<Rightarrow> s | None \<Rightarrow> [])
        in tryURLs3 (fetch w) (moveIngestFails w) (Join (IngestDir cfg) filename) urls sz cb None)"

subsection \<open>The worker (processDownload)\<close>

text \<open>
  One book through \<^verbatim>\<open>WorkerPool.processDownload\<close>, with the registry calls in the order
  the worker makes them and no call of another goroutine in between. The progress
  callback is \<^verbatim>\<open>wp.queue.UpdateProgress(bookID, progress)\<close>. \<open>t1\<close> to \<open>t3\<close> are clock
  readings, \<open>ctxAfter\<close> what the context answers after the download.
\<close>

definition processDownload ::
  "(world \<Rightarrow> BookInfo \<Rightarrow> bool \<Rightarrow> (bookError + string) \<times> real list) \<Rightarrow> world \<Rightarrow> bool
   \<Rightarrow> string \<Rightarrow> int \<Rightarrow> int \<Rightarrow> (string \<Rightarrow> int) \<Rightarrow> int \<Rightarrow> BookQueue \<Rightarrow> BookQueue" where
  "processDownload downloadBook w ctxAfter bookID t1 t2 nowAt t3 bq =
     (let bq1 = UpdateStatus bookID StatusDownloading t1 bq;
          bq2 = Refresh t2 nowAt bq1
      in case (if fmlookup (status bq2) bookID \<noteq> None then fmlookup (bookData bq2) bookID else None) of
           None \<Rightarrow> UpdateStatus bookID StatusError t3 bq2
         | Some book \<Rightarrow>
             let (res, ps) = downloadBook w book True;
                 bq3 = fold (UpdateProgress bookID) ps bq2
             in if ctxAfter then UpdateStatus bookID StatusCancelled t3 bq3
                else case res of
                       Inl e \<Rightarrow> UpdateStatus bookID StatusError t3 bq3
                     | Inr downloadPath \<Rightarrow>
                         UpdateStatus bookID StatusAvailable t3
                           (UpdateDownloadPath bookID downloadPath bq3))"

section \<open>The claims about the downloader\<close>

lemma TrimSpace_ends:
  "TrimSpace s \<noteq> [] \<Longrightarrow> \<not> isSpace (hd (TrimSpace s)) \<and> \<not> isSpace (last (TrimSpace s))"
proof -
  assume ne: "TrimSpace s \<noteq> []"
  define t where "t = dropWhile isSpace s"
  define u where "u = dropWhile isSpace (rev t)"
  have ts: "TrimSpace s = rev u" by (simp add: TrimSpace_def t_def u_def)
  then have un: "u \<noteq> []" using ne by simp
  then have hu: "\<not> isSpace (hd u)" unfolding u_def by (metis hd_dropWhile)
  have "last (rev u) = hd u" using un by (simp add: last_rev)
  then have l: "\<not> isSpace (last (TrimSpace s))" using hu ts by simp
  have tn: "t \<noteq> []" using un unfolding u_def by auto
  then have ht: "\<not> isSpace (hd t)" unfolding t_def by (metis hd_dropWhile)
  have "\<exists>pre. rev t = pre @ u" unfolding u_def by (metis takeWhile_dropWhile_id)
  then obtain pre where pre: "rev t = pre @ u" by blast
  then have "t = rev u @ rev pre" by (metis rev_append rev_rev_ident)
  then have "hd t = hd (rev u)" using un by simp
  then show ?thesis using ht l ts by simp
qed

lemma TrimSpace_subset: "set (TrimSpace s) \<subseteq> set s"
proof -
  have "set (dropWhile isSpace (rev (dropWhile isSpace s))) \<subseteq> set (rev (dropWhile isSpace s))"
    by (rule set_dropWhileD [THEN subsetI])
  also have "\<dots> \<subseteq> set s" using set_dropWhileD [of _ isSpace s] by auto
  finally show ?thesis by (simp add: TrimSpace_def)
qed

lemma TrimSpace_id:
  "s = [] \<or> (\<not> isSpace (hd s) \<and> \<not> isSpace (last s)) \<Longrightarrow> TrimSpace s = s"
proof (cases s)
  case Nil
  then show ?thesis by (simp add: TrimSpace_def)
next
  case (Cons c cs)
  assume "s = [] \<or> (\<not> isSpace (hd s) \<and> \<not> isSpace (last s))"
  then have a: "\<not> isSpace c" "\<not> isSpace (last s)" using Cons by auto
  have 1: "dropWhile isSpace s = s" using a(1) Cons by simp
  have "hd (rev s) = last s" using Cons by (simp add: hd_rev)
  then have "dropWhile isSpace (rev s) = rev s"
    using a(2) by (simp add: dropWhile_eq_self_iff)
  then show ?thesis using 1 by (simp add: TrimSpace_def)
qed

lemma filter_dropWhile_other:
  "\<forall>c\<in>set t. P c \<longrightarrow> \<not> Q c \<Longrightarrow> filter Q (dropWhile P t) = filter Q t"
  by (induction t) auto

lemma TrimSpace_keeps:
  assumes "\<forall>c\<in>set t. isSpace c \<longrightarrow> c = CHR '' ''"
  shows "filter (\<lambda>c. c \<noteq> CHR '' '') (TrimSpace t) = filter (\<lambda>c. c \<noteq> CHR '' '') t"
proof -
  let ?Q = "\<lambda>c. c \<noteq> CHR '' ''"
  have 1: "filter ?Q (dropWhile isSpace t) = filter ?Q t"
    using assms by (intro filter_dropWhile_other) auto
  have "\<forall>c\<in>set (rev (dropWhile isSpace t)). isSpace c \<longrightarrow> \<not> ?Q c"
    using assms set_dropWhileD [of _ isSpace t] by auto
  then have "filter ?Q (dropWhile isSpace (rev (dropWhile isSpace t)))
               = filter ?Q (rev (dropWhile isSpace t))"
    by (rule filter_dropWhile_other)
  then show ?thesis using 1 by (simp add: TrimSpace_def rev_filter [symmetric])
qed

lemma allowedChar_ranges:
  "allowedChar c =
     ((CHR ''a'' \<le> c \<and> c \<le> CHR ''z'') \<or> (CHR ''A'' \<le> c \<and> c \<le> CHR ''Z'')
      \<or> (CHR ''0'' \<le> c \<and> c \<le> CHR ''9'')
      \<or> c = CHR '' '' \<or> c = CHR ''.'' \<or> c = CHR ''_'' \<or> c = CHR ''-'')"
  by (simp add: allowedChar_def isDigit_def less_eq_char_def)

lemma allowed_space: "allowedChar c \<Longrightarrow> isSpace c \<Longrightarrow> c = CHR '' ''"
proof (rule ccontr)
  assume a: "allowedChar c" "isSpace c" "c \<noteq> CHR '' ''"
  then have r: "9 \<le> (of_char c :: nat)" "(of_char c :: nat) \<le> 13" by (simp_all add: isSpace_def)
  have "c = CHR ''.'' \<or> c = CHR ''_'' \<or> c = CHR ''-''"
    using a(1,3) r unfolding allowedChar_def isDigit_def by arith
  then show False using r by auto
qed

lemma sanitizeFilename_chars: "c \<in> set (sanitizeFilename s) \<Longrightarrow> allowedChar c"
  using TrimSpace_subset [of "filter allowedChar s"] by (auto simp: sanitizeFilename_def)

lemma sanitizeFilename_id:
  "list_all allowedChar s \<Longrightarrow> s = [] \<or> (hd s \<noteq> CHR '' '' \<and> last s \<noteq> CHR '' '') \<Longrightarrow>
   sanitizeFilename s = s"
proof -
  assume a: "list_all allowedChar s" and b: "s = [] \<or> (hd s \<noteq> CHR '' '' \<and> last s \<noteq> CHR '' '')"
  have f: "filter allowedChar s = s" using a by (simp add: list_all_iff)
  have sp: "isSpace c \<Longrightarrow> allowedChar c \<Longrightarrow> c = CHR '' ''" for c
    by (auto simp: isSpace_def allowedChar_def isDigit_def)
  have "s = [] \<or> (\<not> isSpace (hd s) \<and> \<not> isSpace (last s))"
  proof (cases "s = []")
    case False
    then have "allowedChar (hd s)" "allowedChar (last s)" using a by (simp_all add: list_all_iff)
    then show ?thesis using b False sp by blast
  qed simp
  then show ?thesis using f by (simp add: sanitizeFilename_def TrimSpace_id)
qed


definition attemptOf :: "string \<Rightarrow> int \<Rightarrow> nat \<Rightarrow> attempt" where
  "attemptOf ctype declared served =
     \<lparr> fetched = Responds \<lparr> StatusCode = 200, ContentLength = declared, ContentType = ctype,
                             Body = [BodyRead False served False EOF 0] \<rparr>,
       createFails = False, moveFails = False, startClock = 0 \<rparr>"



lemma tryURLs3_path:
  "fst (tryURLs3 f mv finalPath urls sz cb lastErr) = Inr p \<Longrightarrow> p = finalPath"
proof (induction urls arbitrary: lastErr)
  case Nil
  then show ?case by simp
next
  case (Cons url rest)
  obtain r ps where d: "DownloadURL3 (f url) sz cb = (r, ps)" by (cases "DownloadURL3 (f url) sz cb")
  show ?case
  proof (cases r)
    case None
    then show ?thesis using Cons.prems d by (simp split: if_splits)
  next
    case (Some e)
    then have "fst (tryURLs3 f mv finalPath rest sz cb (Some e)) = Inr p"
      using Cons.prems d by (simp add: split_beta)
    then show ?thesis by (rule Cons.IH)
  qed
qed

text \<open>
  Claim C7, as amended. When \<^verbatim>\<open>DownloadBook\<close> succeeds, the file is in the ingest
  directory under this name. First text: the sanitized title when title-naming is
  configured and the title is not empty, otherwise the id; then a dot and the format when
  the descriptor has a non-empty one, and \<^verbatim>\<open>.epub\<close> when it has not. Third text: the
  title (under the same condition) or the id, then a dot and the format only when the
  descriptor has a non-empty one, and the whole name sanitized. Sanitizing keeps exactly
  the characters of \<^verbatim>\<open>[A-Za-z0-9 ._-]\<close> and then trims blanks at both ends.
\<close>

theorem final_filename:
  "(\<forall>p. fst (DownloadBook1 cfg w book cb) = Inr p \<longrightarrow>
        p = Join (IngestDir cfg)
              ((if UseBookTitle cfg \<and> Title book \<noteq> [] then sanitizeFilename (Title book) else ID book)
               @ ''.'' @ (case Format book of Some f \<Rightarrow> if f \<noteq> [] then f else ''epub'' | None \<Rightarrow> ''epub'')))
   \<and> (\<forall>p. fst (DownloadBook3 cfg w book cb) = Inr p \<longrightarrow>
        p = Join (IngestDir cfg)
              (sanitizeFilename
                 ((if UseBookTitle cfg \<and> Title book \<noteq> [] then Title book else ID book)
                  @ (case Format book of Some f \<Rightarrow> if f \<noteq> [] then ''.'' @ f else [] | None \<Rightarrow> []))))
   \<and> (\<forall>s. (\<forall>c\<in>set (sanitizeFilename s).
                (CHR ''a'' \<le> c \<and> c \<le> CHR ''z'') \<or> (CHR ''A'' \<le> c \<and> c \<le> CHR ''Z'')
                \<or> (CHR ''0'' \<le> c \<and> c \<le> CHR ''9'')
                \<or> c = CHR '' '' \<or> c = CHR ''.'' \<or> c = CHR ''_'' \<or> c = CHR ''-'')
          \<and> (sanitizeFilename s \<noteq> [] \<longrightarrow>
                hd (sanitizeFilename s) \<noteq> CHR '' '' \<and> last (sanitizeFilename s) \<noteq> CHR '' '')
          \<and> filter (\<lambda>c. c \<noteq> CHR '' '') (sanitizeFilename s)
              = filter (\<lambda>c. c \<noteq> CHR '' '') (filter allowedChar s))"
proof -
  let ?name1 = "(if UseBookTitle cfg \<and> Title book \<noteq> [] then sanitizeFilename (Title book) else ID book)
               @ ''.'' @ (case Format book of Some f \<Rightarrow> if f \<noteq> [] then f else ''epub'' | None \<Rightarrow> ''epub'')"
  let ?name3 = "sanitizeFilename
                 ((if UseBookTitle cfg \<and> Title book \<noteq> [] then Title book else ID book)
                  @ (case Format book of Some f \<Rightarrow> if f \<noteq> [] then ''.'' @ f else [] | None \<Rightarrow> []))"
  have 1: "\<forall>p. fst (DownloadBook1 cfg w book cb) = Inr p \<longrightarrow> p = Join (IngestDir cfg) ?name1"
  proof (intro allI impI)
    fix p assume "fst (DownloadBook1 cfg w book cb) = Inr p"
    then show "p = Join (IngestDir cfg) ?name1"
      unfolding DownloadBook1_def Let_def by (auto split: if_splits prod.splits)
  qed
  have 2: "\<forall>p. fst (DownloadBook3 cfg w book cb) = Inr p \<longrightarrow> p = Join (IngestDir cfg) ?name3"
  proof (intro allI impI)
    fix p assume that: "fst (DownloadBook3 cfg w book cb) = Inr p"
    have ne: "DownloadURLs book \<noteq> []"
    proof
      assume "DownloadURLs book = []"
      then have "fst (DownloadBook3 cfg w book cb) = Inl ErrNoURLs" by (simp add: DownloadBook3_def)
      then show False using that by simp
    qed
    define urls where "urls =
        (if AADonatorKey cfg \<noteq> []
         then [AABaseURL cfg @ ''/dyn/api/fast_download.json?md5='' @ ID book @ ''&key='' @ AADonatorKey cfg]
         else []) @ DownloadURLs book"
    define sz where "sz = (case Size book of Some s \<Rightarrow> s | None \<Rightarrow> [])"
    have "DownloadBook3 cfg w book cb
            = tryURLs3 (fetch w) (moveIngestFails w) (Join (IngestDir cfg) ?name3) urls sz cb None"
      unfolding DownloadBook3_def Let_def urls_def [symmetric] sz_def [symmetric]
      using ne by (cases "Format book") (simp_all del: tryURLs3.simps)
    then have "fst (tryURLs3 (fetch w) (moveIngestFails w) (Join (IngestDir cfg) ?name3) urls sz cb None)
                 = Inr p"
      using that by simp
    then show "p = Join (IngestDir cfg) ?name3" by (rule tryURLs3_path)
  qed
  have 3: "\<forall>s. (\<forall>c\<in>set (sanitizeFilename s).
                (CHR ''a'' \<le> c \<and> c \<le> CHR ''z'') \<or> (CHR ''A'' \<le> c \<and> c \<le> CHR ''Z'')
                \<or> (CHR ''0'' \<le> c \<and> c \<le> CHR ''9'')
                \<or> c = CHR '' '' \<or> c = CHR ''.'' \<or> c = CHR ''_'' \<or> c = CHR ''-'')
          \<and> (sanitizeFilename s \<noteq> [] \<longrightarrow>
                hd (sanitizeFilename s) \<noteq> CHR '' '' \<and> last (sanitizeFilename s) \<noteq> CHR '' '')
          \<and> filter (\<lambda>c. c \<noteq> CHR '' '') (sanitizeFilename s)
              = filter (\<lambda>c. c \<noteq> CHR '' '') (filter allowedChar s)"
  proof (intro allI conjI ballI impI)
    fix s c assume "c \<in> set (sanitizeFilename s)"
    then have "allowedChar c" by (rule sanitizeFilename_chars)
    then show "(CHR ''a'' \<le> c \<and> c \<le> CHR ''z'') \<or> (CHR ''A'' \<le> c \<and> c \<le> CHR ''Z'')
                \<or> (CHR ''0'' \<le> c \<and> c \<le> CHR ''9'')
                \<or> c = CHR '' '' \<or> c = CHR ''.'' \<or> c = CHR ''_'' \<or> c = CHR ''-''"
      by (simp add: allowedChar_ranges)
  next
    fix s assume ne: "sanitizeFilename s \<noteq> []"
    have sp: "isSpace (CHR '' '')" by (simp add: isSpace_def)
    from TrimSpace_ends [of "filter allowedChar s"] ne
    have "\<not> isSpace (hd (sanitizeFilename s))" "\<not> isSpace (last (sanitizeFilename s))"
      by (simp_all add: sanitizeFilename_def)
    then show "hd (sanitizeFilename s) \<noteq> CHR '' ''" "last (sanitizeFilename s) \<noteq> CHR '' ''"
      using sp by auto
  next
    fix s
    show "filter (\<lambda>c. c \<noteq> CHR '' '') (sanitizeFilename s)
              = filter (\<lambda>c. c \<noteq> CHR '' '') (filter allowedChar s)"
      unfolding sanitizeFilename_def
    proof (rule TrimSpace_keeps, rule ballI, rule impI)
      fix c assume "c \<in> set (filter allowedChar s)" "isSpace c"
      then have "allowedChar c" "isSpace c" by simp_all
      then show "c = CHR '' ''" by (rule allowed_space)
    qed
  qed
  from 1 2 3 show ?thesis by (intro conjI)
qed

definition bookOf :: "string \<Rightarrow> string \<Rightarrow> string option \<Rightarrow> string option \<Rightarrow> BookInfo" where
  "bookOf i t f sz = \<lparr> ID = i, Title = t, Format = f, Size = sz, DownloadURLs = [''u''],
                       DownloadPath = None, Priority = 0, Progress = None \<rparr>"

definition configOf :: "bool \<Rightarrow> Config" where
  "configOf useTitle = \<lparr> UseBookTitle = useTitle, TmpDir = ''/tmp'', IngestDir = ''/ingest'',
                          CustomScript = [], AADonatorKey = [], AABaseURL = [] \<rparr>"

definition worldOf :: "attempt \<Rightarrow> world" where
  "worldOf att = \<lparr> fetch = (\<lambda>url. att), ctxAtStart = False, mkdirTmpFails = False,
                   ctxBeforeScript = False, mkdirIngestFails = False, moveIngestFails = False,
                   ctxBeforeRename = False, renameFinalFails = False \<rparr>"

text \<open>
  The book of the test \<^verbatim>\<open>TestDownloadBook\<close>: title-naming on, title "Test Book Title",
  format epub; both texts put it at \<^verbatim>\<open>Test Book Title.epub\<close> in the ingest directory.
\<close>

theorem final_filename_witness:
  "fst (DownloadBook1 (configOf True) (worldOf (attemptOf [] 17 17))
         (bookOf ''test-book-123'' ''Test Book Title'' (Some ''epub'') None) True)
     = Inr ''/ingest/Test Book Title.epub''
   \<and> fst (DownloadBook3 (configOf True) (worldOf (attemptOf [] 17 17))
         (bookOf ''test-book-123'' ''Test Book Title'' (Some ''epub'') None) True)
     = Inr ''/ingest/Test Book Title.epub''
   \<and> Join ''/ingest'' (sanitizeFilename ''Test Book Title'' @ ''.epub'') = ''/ingest/Test Book Title.epub''
   \<and> Join ''/ingest'' (sanitizeFilename ''Test Book Title.epub'') = ''/ingest/Test Book Title.epub''"
proof -
  let ?cfg = "configOf True" and ?w = "worldOf (attemptOf [] 17 17)"
  let ?b = "bookOf ''test-book-123'' ''Test Book Title'' (Some ''epub'') None"
  have 1: "fst (DownloadBook1 ?cfg ?w ?b True) = Inr ''/ingest/Test Book Title.epub''"
    by code_simp
  have 3: "fst (DownloadBook3 ?cfg ?w ?b True) = Inr ''/ingest/Test Book Title.epub''"
    by code_simp
  have c: "IngestDir ?cfg = ''/ingest''" "UseBookTitle ?cfg" "Title ?b = ''Test Book Title''"
    "Format ?b = Some ''epub''"
    by (simp_all add: configOf_def bookOf_def)
  from final_filename [of ?cfg ?w ?b True, THEN conjunct1, rule_format, OF 1]
  have "''/ingest/Test Book Title.epub'' = Join ''/ingest'' (sanitizeFilename ''Test Book Title'' @ ''.epub'')"
    using c by simp
  moreover from final_filename [of ?cfg ?w ?b True, THEN conjunct2, THEN conjunct1, rule_format, OF 3]
  have "''/ingest/Test Book Title.epub'' = Join ''/ingest'' (sanitizeFilename ''Test Book Title.epub'')"
    using c by simp
  ultimately show ?thesis using 1 3 by simp
qed

text \<open>
  Against C7 as it is written: without a format the third text adds no \<^verbatim>\<open>.epub\<close>; with
  title-naming on and an empty title the first text names the file by the id, where the
  sanitized title would give \<^verbatim>\<open>.epub\<close> alone; and the third text sanitizes after it has
  appended the format, so a blank that ends the title stays in front of the dot.
\<close>

theorem final_filename_counterexample:
  "fst (DownloadBook3 (configOf False) (worldOf (attemptOf [] 17 17))
         (bookOf ''a1'' ''Title'' None None) True) = Inr ''/ingest/a1''
   \<and> fst (DownloadBook1 (configOf True) (worldOf (attemptOf [] 17 17))
         (bookOf ''a1'' [] (Some ''pdf'') None) True) = Inr ''/ingest/a1.pdf''
   \<and> fst (DownloadBook3 (configOf True) (worldOf (attemptOf [] 17 17))
         (bookOf ''a1'' ''My Book '' (Some ''pdf'') None) True) = Inr ''/ingest/My Book .pdf''"
proof -
  have "fst (DownloadBook3 (configOf False) (worldOf (attemptOf [] 17 17))
         (bookOf ''a1'' ''Title'' None None) True) = Inr ''/ingest/a1''"
    by code_simp
  moreover have "fst (DownloadBook1 (configOf True) (worldOf (attemptOf [] 17 17))
         (bookOf ''a1'' [] (Some ''pdf'') None) True) = Inr ''/ingest/a1.pdf''"
    by code_simp
  moreover have "fst (DownloadBook3 (configOf True) (worldOf (attemptOf [] 17 17))
         (bookOf ''a1'' ''My Book '' (Some ''pdf'') None) True) = Inr ''/ingest/My Book .pdf''"
    by code_simp
  ultimately show ?thesis by blast
qed

text \<open>
  Claim C8, on the code. \<^verbatim>\<open>parseSizeStringInt64\<close> (third text) gives the four values of
  the claim. \<^verbatim>\<open>parseSizeString\<close> (first text) gives three of them and 0 for "1024 B":
  it strips only the suffixes MB, KB and GB, so "1024B" reaches \<^verbatim>\<open>strconv.ParseFloat\<close>
  and is refused.
\<close>

theorem size_parsing:
  "parseSizeStringInt64 ''1024 B'' = 1024
   \<and> parseSizeStringInt64 ''1 GB'' = 2 ^ 30
   \<and> real_of_int (parseSizeStringInt64 ''3,5 MB'') = 3.5 * 2 ^ 20
   \<and> parseSizeStringInt64 ''invalid'' = 0
   \<and> parseSizeString ''1 GB'' = 2 ^ 30
   \<and> real_of_int (parseSizeString ''3,5 MB'') = 3.5 * 2 ^ 20
   \<and> parseSizeString ''invalid'' = 0
   \<and> parseSizeString ''1024'' = 1024
   \<and> parseSizeString ''1024 B'' = 0"
proof -
  have "parseSizeStringInt64 ''1024 B'' = 1024" by code_simp
  moreover have "parseSizeStringInt64 ''1 GB'' = 2 ^ 30" by code_simp
  moreover have "parseSizeStringInt64 ''3,5 MB'' = 3670016" by code_simp
  moreover have "parseSizeStringInt64 ''invalid'' = 0" by code_simp
  moreover have "parseSizeString ''1 GB'' = 2 ^ 30" by code_simp
  moreover have "parseSizeString ''3,5 MB'' = 3670016" by code_simp
  moreover have "parseSizeString ''invalid'' = 0" by code_simp
  moreover have "parseSizeString ''1024'' = 1024" by code_simp
  moreover have "parseSizeString ''1024 B'' = 0" by code_simp
  ultimately show ?thesis by simp
qed

text \<open>
  Claim C9, on the code. A book declared as "1 KB" whose URL serves 2048 bytes: the
  third text calls the progress callback with 200 and the worker records it with
  \<^verbatim>\<open>UpdateProgress\<close>, which stores what it is given; the book ends available with
  progress 200. In the first text the same body, read one second after the start, is
  reported as 200 before the final 100.
\<close>

theorem progress_above_100:
  "snd (DownloadURL3 (attemptOf [] 2048 2048) ''1 KB'' True) = [200]
   \<and> map_option Progress (fmlookup (bookData
        (processDownload (DownloadBook3 (configOf True)) (worldOf (attemptOf [] 2048 2048)) False
           ''a'' 2 3 (\<lambda>k. 3) 4
           (fst (GetNext (Add ''a'' (bookOf ''a'' ''Book'' (Some ''epub'') (Some ''1 KB'')) 0 1 1
                            (NewBookQueue 3600)))))) ''a'')
       = Some (Some 200)
   \<and> fmlookup (status
        (processDownload (DownloadBook3 (configOf True)) (worldOf (attemptOf [] 2048 2048)) False
           ''a'' 2 3 (\<lambda>k. 3) 4
           (fst (GetNext (Add ''a'' (bookOf ''a'' ''Book'' (Some ''epub'') (Some ''1 KB'')) 0 1 1
                            (NewBookQueue 3600)))))) ''a''
       = Some StatusAvailable
   \<and> snd (DownloadURL1
        \<lparr> fetched = Responds \<lparr> StatusCode = 200, ContentLength = 2048, ContentType = [],
                               Body = [BodyRead False 2048 False EOF 1000000000] \<rparr>,
          createFails = False, moveFails = False, startClock = 0 \<rparr> ''1 KB'' True) = [200, 100]"
proof -
  have "snd (DownloadURL3 (attemptOf [] 2048 2048) ''1 KB'' True) = [200]" by code_simp
  moreover have "map_option Progress (fmlookup (bookData
        (processDownload (DownloadBook3 (configOf True)) (worldOf (attemptOf [] 2048 2048)) False
           ''a'' 2 3 (\<lambda>k. 3) 4
           (fst (GetNext (Add ''a'' (bookOf ''a'' ''Book'' (Some ''epub'') (Some ''1 KB'')) 0 1 1
                            (NewBookQueue 3600)))))) ''a'')
       = Some (Some 200)"
    by code_simp
  moreover have "fmlookup (status
        (processDownload (DownloadBook3 (configOf True)) (worldOf (attemptOf [] 2048 2048)) False
           ''a'' 2 3 (\<lambda>k. 3) 4
           (fst (GetNext (Add ''a'' (bookOf ''a'' ''Book'' (Some ''epub'') (Some ''1 KB'')) 0 1 1
                            (NewBookQueue 3600)))))) ''a''
       = Some StatusAvailable"
    by code_simp
  moreover have "snd (DownloadURL1
        \<lparr> fetched = Responds \<lparr> StatusCode = 200, ContentLength = 2048, ContentType = [],
                               Body = [BodyRead False 2048 False EOF 1000000000] \<rparr>,
          createFails = False, moveFails = False, startClock = 0 \<rparr> ''1 KB'' True) = [200, 100]"
    by code_simp
  ultimately show ?thesis by blast
qed

end
